theory Spec2Isabelle
  imports Complex_Main "HOL-Library.AList" "HOL-Library.Multiset"
begin

section \<open>Data model\<close>

text \<open>
  The coordination agent (\<^verbatim>\<open>src/agents/coordinationAgent.js\<close>) works on the rows of the
  \<^verbatim>\<open>tasks\<close> table joined with \<^verbatim>\<open>trades\<close>. A \<^verbatim>\<open>DATE\<close> column reaches the code as a
  JavaScript \<^verbatim>\<open>Date\<close> object or as \<^verbatim>\<open>null\<close>; the code only ever compares and subtracts
  dates, which JavaScript does on their time value, an integral number of milliseconds.
  A date is therefore an \<^typ>\<open>int\<close> (milliseconds), and a nullable column an option.
  Identities are the integers of a \<^verbatim>\<open>SERIAL\<close> key; \<^verbatim>\<open>depends_on\<close> is a nullable
  \<^verbatim>\<open>INTEGER[]\<close>, \<^verbatim>\<open>status\<close> a nullable \<^verbatim>\<open>VARCHAR\<close>.
\<close>

type_synonym date = int

record task =
  task_id :: int
  name :: string
  description :: "string option"
  planned_start_date :: "date option"
  planned_end_date :: "date option"
  actual_start_date :: "date option"
  actual_end_date :: "date option"
  status :: "string option"
  depends_on :: "int list option"
  trade_id :: "int option"
  trade_name :: "string option"

text \<open>\<^verbatim>\<open>1000 * 60 * 60 * 24\<close>, the divisor of every day count in the source.\<close>

definition msPerDay :: int where
  "msPerDay = 1000 * 60 * 60 * 24"

text \<open>
  \<^verbatim>\<open>Math.ceil(ms / (1000 * 60 * 60 * 24))\<close> for a difference \<open>ms\<close> of two time values.
  The quotient is taken exactly; the floating-point division of the source gives the
  same ceiling as long as the two dates are less than \<open>2\<^sup>5\<^sup>3\<close> milliseconds apart,
  which any two values of a \<^verbatim>\<open>DATE\<close> column that JavaScript can hold are. \<open>div\<close> on
  \<^typ>\<open>int\<close> rounds down, so the ceiling is the negated floor of the negated quotient.
\<close>

definition ceilDays :: "int \<Rightarrow> int" where
  "ceilDays ms = - ((- ms) div msPerDay)"

text \<open>\<^verbatim>\<open>new Date(v)\<close> for a column value: a copy of the date; \<^verbatim>\<open>new Date(null)\<close> is the epoch.\<close>

definition new_Date :: "date option \<Rightarrow> date" where
  "new_Date v = (case v of None \<Rightarrow> 0 | Some ms \<Rightarrow> ms)"

text \<open>
  JavaScript truthiness of the values the guards test: a \<^verbatim>\<open>Date\<close> object or an array is
  truthy and \<^verbatim>\<open>null\<close> is not; a number is truthy unless it is \<open>0\<close>.
\<close>

definition truthy_object :: "'a option \<Rightarrow> bool" where
  "truthy_object v = (v \<noteq> None)"

definition truthy_number :: "int option \<Rightarrow> bool" where
  "truthy_number v = (case v of None \<Rightarrow> False | Some k \<Rightarrow> k \<noteq> 0)"

section \<open>Trade overlap detector\<close>

text \<open>
  \<^verbatim>\<open>detectTradeOverlaps\<close> logs its findings and returns nothing; the model returns the
  array \<^verbatim>\<open>overlaps\<close> as it stands when the logging starts, and \<open>daysOverlap\<close> is the
  number the log line prints for an entry.

  \<^verbatim>\<open>tasksByTrade\<close> is a JavaScript \<^verbatim>\<open>Map\<close>, whose keys keep their insertion order: an
  association list, where \<^const>\<open>AList.update\<close> is \<^verbatim>\<open>Map.prototype.set\<close> (an existing key
  keeps its place, a new key goes last) and \<^const>\<open>map_of\<close> is \<^verbatim>\<open>get\<close>.
\<close>

record overlap =
  task1 :: task
  task2 :: task
  startOverlap :: date
  endOverlap :: date

definition daysOverlap :: "overlap \<Rightarrow> int" where
  "daysOverlap ov = ceilDays (endOverlap ov - startOverlap ov)"

text \<open>
  The guard of line 116:
  \<^verbatim>\<open>task.trade_id && task.planned_start_date && task.planned_end_date\<close>.
\<close>

definition eligible :: "task \<Rightarrow> bool" where
  "eligible t = (truthy_number (trade_id t) \<and> truthy_object (planned_start_date t)
         \<and> truthy_object (planned_end_date t))"

text \<open>The body of the first \<^verbatim>\<open>forEach\<close> (lines 115 to 122).\<close>

definition tasksByTrade_step :: "(int \<times> task list) list \<Rightarrow> task \<Rightarrow> (int \<times> task list) list" where
  "tasksByTrade_step m t =
     (if eligible t
      then (case trade_id t of
              None \<Rightarrow> m
            | Some k \<Rightarrow>
                (let m1 = (if map_of m k = None then AList.update k [] m else m)
                 in (case map_of m1 k of
                       None \<Rightarrow> m1
                     | Some ts \<Rightarrow> AList.update k (ts @ [t]) m1)))
      else m)"

definition tasksByTrade :: "task list \<Rightarrow> (int \<times> task list) list" where
  "tasksByTrade tasks = foldl tasksByTrade_step [] tasks"

text \<open>The test and the \<^verbatim>\<open>push\<close> of lines 136 to 148, for one pair of tasks.\<close>

definition overlap_check :: "task \<Rightarrow> task \<Rightarrow> overlap list" where
  "overlap_check t1 t2 =
     (let startDate1 = new_Date (planned_start_date t1);
          endDate1 = new_Date (planned_end_date t1);
          startDate2 = new_Date (planned_start_date t2);
          endDate2 = new_Date (planned_end_date t2)
      in if startDate1 \<le> endDate2 \<and> endDate1 \<ge> startDate2
         then [\<lparr>task1 = t1, task2 = t2,
                startOverlap = (if startDate1 > startDate2 then startDate1 else startDate2),
                endOverlap = (if endDate1 < endDate2 then endDate1 else endDate2)\<rparr>]
         else [])"

text \<open>The two \<^verbatim>\<open>for ... of\<close> loops over the tasks of two trades (lines 133 to 150).\<close>

definition compare_trades :: "task list \<Rightarrow> task list \<Rightarrow> overlap list" where
  "compare_trades tradeTasks1 tradeTasks2 =
     concat (map (\<lambda>t1. concat (map (\<lambda>t2. overlap_check t1 t2) tradeTasks2)) tradeTasks1)"

text \<open>\<^verbatim>\<open>tasksByTrade.get(k)\<close> for a key \<open>k\<close> taken from the map's own keys.\<close>

definition get_trade :: "(int \<times> task list) list \<Rightarrow> int \<Rightarrow> task list" where
  "get_trade m k = (case map_of m k of None \<Rightarrow> [] | Some ts \<Rightarrow> ts)"

text \<open>
  The index loops \<^verbatim>\<open>for i\<close>, \<^verbatim>\<open>for j = i + 1\<close> over \<^verbatim>\<open>trades\<close> (lines 128 to 152): the
  first key is compared with every later one, then the loop goes on with the rest.
\<close>

fun trade_loops :: "(int \<times> task list) list \<Rightarrow> int list \<Rightarrow> overlap list" where
  "trade_loops m [] = []"
| "trade_loops m (ti # rest) =
     concat (map (\<lambda>tj. compare_trades (get_trade m ti) (get_trade m tj)) rest)
     @ trade_loops m rest"

definition detectTradeOverlaps :: "task list \<Rightarrow> overlap list" where
  "detectTradeOverlaps tasks =
     (let m = tasksByTrade tasks; trades = map fst m in trade_loops m trades)"

section \<open>Missing dependency inferrer\<close>

text \<open>
  \<^verbatim>\<open>detectMissingDependencies\<close> sorts a copy of the task array with
  \<^verbatim>\<open>Array.prototype.sort\<close> and the comparator of lines 180 to 184. The comparator
  answers \<open>1\<close> whenever its first argument has no planned start, also when the second has
  none either, so it is not a consistent comparison in the sense of the language
  standard. The standard requires the sort to be stable, and a sort decides by asking
  whether the comparator's answer is negative. As an answer to that question the
  comparator is a proper order: a task with a planned start is before every task with a
  later one and before every task without one, and no task without a planned start is
  before any task. The model is the stable insertion sort that asks this question.
\<close>

definition compareTasks :: "task \<Rightarrow> task \<Rightarrow> int" where
  "compareTasks a b =
     (if \<not> truthy_object (planned_start_date a) then 1
      else if \<not> truthy_object (planned_start_date b) then - 1
      else new_Date (planned_start_date a) - new_Date (planned_start_date b))"

fun insert_sorted :: "('a \<Rightarrow> 'a \<Rightarrow> int) \<Rightarrow> 'a \<Rightarrow> 'a list \<Rightarrow> 'a list" where
  "insert_sorted cmp x [] = [x]"
| "insert_sorted cmp x (y # ys) =
     (if cmp x y < 0 then x # y # ys else y # insert_sorted cmp x ys)"

definition array_sort :: "('a \<Rightarrow> 'a \<Rightarrow> int) \<Rightarrow> 'a list \<Rightarrow> 'a list" where
  "array_sort cmp xs = foldl (\<lambda>acc x. insert_sorted cmp x acc) [] xs"

text \<open>
  An entry of \<^verbatim>\<open>potentialDependencies\<close> is \<^verbatim>\<open>{task, daysBetween}\<close> and an entry of
  \<^verbatim>\<open>potentialIssues\<close> is \<^verbatim>\<open>{task, potentialDependencies, type}\<close>; the fields called
  \<^verbatim>\<open>task\<close> and \<^verbatim>\<open>type\<close> in the source carry the record's name here.
\<close>

record potentialDependency =
  candidate_task :: task
  daysBetween :: int

record issue =
  issue_task :: task
  potentialDependencies :: "potentialDependency list"
  issue_type :: string

text \<open>\<^verbatim>\<open>currentTask.depends_on && currentTask.depends_on.length > 0\<close> (line 194).\<close>

definition hasDependencies :: "task \<Rightarrow> bool" where
  "hasDependencies t = (case depends_on t of None \<Rightarrow> False | Some ds \<Rightarrow> length ds > 0)"

text \<open>\<^verbatim>\<open>!currentTask.depends_on || !currentTask.depends_on.includes(prevTask.id)\<close> (line 211).\<close>

definition notDeclared :: "task \<Rightarrow> task \<Rightarrow> bool" where
  "notDeclared currentTask prevTask =
     (case depends_on currentTask of None \<Rightarrow> True | Some ds \<Rightarrow> task_id prevTask \<notin> set ds)"

text \<open>
  The inner loop \<^verbatim>\<open>for (j = 0; j < i; j++)\<close> (lines 199 to 217) over the tasks before
  the current one in sorted order.
\<close>

fun potentialDependencies_loop :: "task \<Rightarrow> date \<Rightarrow> task list \<Rightarrow> potentialDependency list" where
  "potentialDependencies_loop currentTask currentTaskDate [] = []"
| "potentialDependencies_loop currentTask currentTaskDate (prevTask # rest) =
     (if \<not> truthy_object (planned_end_date prevTask)
      then potentialDependencies_loop currentTask currentTaskDate rest
      else (let prevTaskEndDate = new_Date (planned_end_date prevTask);
                d = ceilDays (currentTaskDate - prevTaskEndDate)
            in if d \<ge> 0 \<and> d \<le> 5 \<and> notDeclared currentTask prevTask
               then \<lparr>candidate_task = prevTask, daysBetween = d\<rparr>
                    # potentialDependencies_loop currentTask currentTaskDate rest
               else potentialDependencies_loop currentTask currentTaskDate rest))"

text \<open>
  The outer loop \<^verbatim>\<open>for (i = 0; i < sortedTasks.length; i++)\<close> (lines 187 to 227): the
  first argument is \<^verbatim>\<open>sortedTasks[0..i)\<close>, the second the tasks from index \<open>i\<close> on.
\<close>

fun potentialIssues_loop :: "task list \<Rightarrow> task list \<Rightarrow> issue list" where
  "potentialIssues_loop prevs [] = []"
| "potentialIssues_loop prevs (currentTask # rest) =
     (if \<not> truthy_object (planned_start_date currentTask)
      then potentialIssues_loop (prevs @ [currentTask]) rest
      else (let currentTaskDate = new_Date (planned_start_date currentTask);
                pds = potentialDependencies_loop currentTask currentTaskDate prevs
            in (if length pds > 0 \<and> \<not> hasDependencies currentTask
                then [\<lparr>issue_task = currentTask, potentialDependencies = pds,
                       issue_type = ''missing_dependency''\<rparr>]
                else [])
               @ potentialIssues_loop (prevs @ [currentTask]) rest))"

text \<open>
  The order the sort is meant to establish, as a relation between an earlier and a later
  task: planned starts do not decrease, and after a task without a planned start come
  only tasks without one.
\<close>

definition chronological :: "task \<Rightarrow> task \<Rightarrow> bool" where
  "chronological a b =
     (case planned_start_date a of
        None \<Rightarrow> planned_start_date b = None
      | Some x \<Rightarrow> (case planned_start_date b of None \<Rightarrow> True | Some y \<Rightarrow> x \<le> y))"

definition sortedTasks :: "task list \<Rightarrow> task list" where
  "sortedTasks tasks = array_sort compareTasks tasks"

text \<open>
  The parameters \<^verbatim>\<open>taskMap\<close>, \<^verbatim>\<open>dependencyGraph\<close> and \<^verbatim>\<open>projectId\<close> are not read by the
  body and are left out; the result is \<^verbatim>\<open>potentialIssues\<close> as the logging finds it.
\<close>

definition detectMissingDependencies :: "task list \<Rightarrow> issue list" where
  "detectMissingDependencies tasks = potentialIssues_loop [] (sortedTasks tasks)"

section \<open>Schedule conflict detector\<close>

record conflict =
  conflict_task :: task
  dependency :: task
  daysConflict :: int

text \<open>The inner \<^verbatim>\<open>forEach\<close> over \<^verbatim>\<open>task.depends_on\<close> (lines 260 to 275).\<close>

fun dependencies_loop :: "(int \<rightharpoonup> task) \<Rightarrow> task \<Rightarrow> date \<Rightarrow> int list \<Rightarrow> conflict list" where
  "dependencies_loop taskMap t taskStartDate [] = []"
| "dependencies_loop taskMap t taskStartDate (dependencyId # rest) =
     (case taskMap dependencyId of
        None \<Rightarrow> dependencies_loop taskMap t taskStartDate rest
      | Some dep \<Rightarrow>
          (if truthy_object (planned_end_date dep)
           then (let dependencyEndDate = new_Date (planned_end_date dep)
                 in if taskStartDate < dependencyEndDate
                    then \<lparr>conflict_task = t, dependency = dep,
                          daysConflict = ceilDays (dependencyEndDate - taskStartDate)\<rparr>
                         # dependencies_loop taskMap t taskStartDate rest
                    else dependencies_loop taskMap t taskStartDate rest)
           else dependencies_loop taskMap t taskStartDate rest))"

text \<open>The body of the outer \<^verbatim>\<open>forEach\<close> (lines 256 to 276), for one task.\<close>

definition task_conflicts :: "(int \<rightharpoonup> task) \<Rightarrow> task \<Rightarrow> conflict list" where
  "task_conflicts taskMap t =
     (case depends_on t of
        None \<Rightarrow> []
      | Some ds \<Rightarrow>
          (if length ds > 0 \<and> truthy_object (planned_start_date t)
           then dependencies_loop taskMap t (new_Date (planned_start_date t)) ds
           else []))"

text \<open>\<^verbatim>\<open>dependencyGraph\<close> and \<^verbatim>\<open>projectId\<close> are not read by the body and are left out.\<close>

definition detectScheduleConflicts :: "task list \<Rightarrow> (int \<rightharpoonup> task) \<Rightarrow> conflict list" where
  "detectScheduleConflicts tasks taskMap = concat (map (task_conflicts taskMap) tasks)"

section \<open>Dependency graph builder\<close>

text \<open>
  \<^verbatim>\<open>analyzeProjectTasks\<close> builds two \<^verbatim>\<open>Map\<close>s before it calls the detectors (lines 71
  to 89): \<^verbatim>\<open>taskMap\<close> from identity to task and \<^verbatim>\<open>dependencyGraph\<close> from identity to
  the identities of the tasks that depend on it.
\<close>

definition init_step :: "(int \<rightharpoonup> task) \<times> (int \<rightharpoonup> int list) \<Rightarrow> task
    \<Rightarrow> (int \<rightharpoonup> task) \<times> (int \<rightharpoonup> int list)" where
  "init_step st t = ((fst st)(task_id t \<mapsto> t), (snd st)(task_id t \<mapsto> []))"

definition graph_push :: "int \<Rightarrow> (int \<rightharpoonup> int list) \<Rightarrow> int \<Rightarrow> (int \<rightharpoonup> int list)" where
  "graph_push tid g dependencyId =
     (case g dependencyId of
        None \<Rightarrow> g
      | Some ids \<Rightarrow> g(dependencyId \<mapsto> ids @ [tid]))"

definition fill_step :: "(int \<rightharpoonup> int list) \<Rightarrow> task \<Rightarrow> (int \<rightharpoonup> int list)" where
  "fill_step g t =
     (case depends_on t of
        None \<Rightarrow> g
      | Some ds \<Rightarrow> if length ds > 0 then foldl (graph_push (task_id t)) g ds else g)"

text \<open>The dependency identities a task declares; a \<^verbatim>\<open>null\<close> array declares none.\<close>

definition declared :: "task \<Rightarrow> int list" where
  "declared t = (case depends_on t of None \<Rightarrow> [] | Some ds \<Rightarrow> ds)"

text \<open>A task with one declared dependency identity removed from its \<^verbatim>\<open>depends_on\<close>.\<close>

definition without_dependency :: "int \<Rightarrow> task \<Rightarrow> task" where
  "without_dependency d t = t\<lparr>depends_on := map_option (filter (\<lambda>x. x \<noteq> d)) (depends_on t)\<rparr>"

definition taskMap_of :: "task list \<Rightarrow> (int \<rightharpoonup> task)" where
  "taskMap_of tasks = fst (foldl init_step (Map.empty, Map.empty) tasks)"

definition dependencyGraph_of :: "task list \<Rightarrow> (int \<rightharpoonup> int list)" where
  "dependencyGraph_of tasks =
     foldl fill_step (snd (foldl init_step (Map.empty, Map.empty) tasks)) tasks"

section \<open>Coordination report assembler\<close>

text \<open>
  \<^verbatim>\<open>generateCoordinationReport\<close> runs two queries inside a \<^verbatim>\<open>try\<close> whose \<^verbatim>\<open>catch\<close>
  returns \<^verbatim>\<open>null\<close>. A query either rejects (an exception at the \<^verbatim>\<open>await\<close>) or resolves
  with its rows. The database is the pair of query results per project identity; the
  locale's \<^verbatim>\<open>toLocaleDateString\<close> and the text of today's date are parameters.
\<close>

datatype 'a query_result = Rejected | Rows "'a list"

record database =
  project_names :: "int \<Rightarrow> string query_result"
  project_tasks :: "int \<Rightarrow> task query_result"

record locale_env =
  toLocaleDateString :: "date \<Rightarrow> string"
  today :: string

record task_display =
  display_id :: int
  display_name :: string
  display_description :: "string option"
  plannedStart :: string
  plannedEnd :: string
  actualStart :: string
  actualEnd :: string
  display_status :: "string option"

record report =
  projectName :: string
  generatedDate :: string
  report_tasksByTrade :: "(string \<times> task_display list) list"
  totalTasks :: nat
  completedTasks :: nat
  inProgressTasks :: nat
  plannedTasks :: nat
  delayedTasks :: nat

text \<open>The label of tasks without a trade; its \<open>e\<close> with an acute accent is the code unit 233.\<close>

definition sans_corps_de_metier :: string where
  "sans_corps_de_metier = ''Sans corps de m'' @ [char_of (233 :: nat)] @ ''tier''"

text \<open>
  The report's \<^verbatim>\<open>tasksByTrade\<close> is a plain object created by \<^verbatim>\<open>{}\<close>, so a lookup of a name
  it does not own finds the properties of \<^verbatim>\<open>Object.prototype\<close>. Each of these is truthy and
  none has a \<^verbatim>\<open>push\<close>: for a trade called so, line 328 skips the initialisation and line
  332 throws a \<^verbatim>\<open>TypeError\<close>, which the \<^verbatim>\<open>catch\<close> turns into \<^verbatim>\<open>null\<close>. The object is an
  association list in insertion order (the order JavaScript gives to keys that are not
  array indices).
\<close>

definition Object_prototype_keys :: "string list" where
  "Object_prototype_keys =
     [''constructor'', ''__proto__'', ''hasOwnProperty'', ''isPrototypeOf'',
      ''propertyIsEnumerable'', ''toLocaleString'', ''toString'', ''valueOf'',
      ''__defineGetter__'', ''__defineSetter__'', ''__lookupGetter__'', ''__lookupSetter__'']"

datatype error = TypeError

definition display_of :: "locale_env \<Rightarrow> task \<Rightarrow> task_display" where
  "display_of env t =
     \<lparr>display_id = task_id t, display_name = name t, display_description = description t,
      plannedStart = (case planned_start_date t of
                        None \<Rightarrow> ''Non d'' @ [char_of (233 :: nat)] @ ''fini''
                      | Some d \<Rightarrow> toLocaleDateString env d),
      plannedEnd = (case planned_end_date t of
                      None \<Rightarrow> ''Non d'' @ [char_of (233 :: nat)] @ ''fini''
                    | Some d \<Rightarrow> toLocaleDateString env d),
      actualStart = (case actual_start_date t of None \<Rightarrow> ''-'' | Some d \<Rightarrow> toLocaleDateString env d),
      actualEnd = (case actual_end_date t of None \<Rightarrow> ''-'' | Some d \<Rightarrow> toLocaleDateString env d),
      display_status = status t\<rparr>"

text \<open>The body of the \<^verbatim>\<open>forEach\<close> of lines 325 to 342.\<close>

definition report_group_step :: "locale_env \<Rightarrow> (string \<times> task_display list) list \<Rightarrow> task
    \<Rightarrow> error + (string \<times> task_display list) list" where
  "report_group_step env g t =
     (let tradeName = (case trade_name t of
                         None \<Rightarrow> sans_corps_de_metier
                       | Some n \<Rightarrow> if n = [] then sans_corps_de_metier else n)
      in (case map_of g tradeName of
            Some ds \<Rightarrow> Inr (AList.update tradeName (ds @ [display_of env t]) g)
          | None \<Rightarrow>
              if tradeName \<in> set Object_prototype_keys then Inl TypeError
              else Inr (AList.update tradeName [display_of env t] g)))"

fun report_group :: "locale_env \<Rightarrow> (string \<times> task_display list) list \<Rightarrow> task list
    \<Rightarrow> error + (string \<times> task_display list) list" where
  "report_group env g [] = Inr g"
| "report_group env g (t # ts) =
     (case report_group_step env g t of
        Inl e \<Rightarrow> Inl e
      | Inr g' \<Rightarrow> report_group env g' ts)"

text \<open>
  The name a task is grouped under, \<^verbatim>\<open>task.trade_name || 'Sans corps de metier'\<close> (line
  326, where the label has its accent), on its own.
\<close>

definition tradeName :: "task \<Rightarrow> string" where
  "tradeName t = (case trade_name t of
                    None \<Rightarrow> sans_corps_de_metier
                  | Some n \<Rightarrow> if n = [] then sans_corps_de_metier else n)"

text \<open>\<^verbatim>\<open>tasks.rows.filter(t => t.status === s).length\<close>.\<close>

definition count_status :: "string \<Rightarrow> task list \<Rightarrow> nat" where
  "count_status s tasks = length (filter (\<lambda>t. status t = Some s) tasks)"

text \<open>The result is \<open>None\<close> where the source returns \<^verbatim>\<open>null\<close>.\<close>

definition generateCoordinationReport :: "locale_env \<Rightarrow> database \<Rightarrow> int \<Rightarrow> report option" where
  "generateCoordinationReport env db projectId =
     (case project_names db projectId of
        Rejected \<Rightarrow> None
      | Rows [] \<Rightarrow> None
      | Rows (pname # _) \<Rightarrow>
          (case project_tasks db projectId of
             Rejected \<Rightarrow> None
           | Rows tasks \<Rightarrow>
               (case report_group env [] tasks of
                  Inl _ \<Rightarrow> None
                | Inr g \<Rightarrow>
                    Some \<lparr>projectName = pname, generatedDate = today env,
                          report_tasksByTrade = g,
                          totalTasks = length tasks,
                          completedTasks = count_status ''completed'' tasks,
                          inProgressTasks = count_status ''in_progress'' tasks,
                          plannedTasks = count_status ''planned'' tasks,
                          delayedTasks = count_status ''delayed'' tasks\<rparr>)))"

section \<open>The detectors on a heap of arrays\<close>

text \<open>
  No line of the three detectors assigns to a property of a task object, so a task is a
  value. What they do mutate is arrays: \<^verbatim>\<open>push\<close> and \<^verbatim>\<open>sort\<close> work in place. To say which
  arrays change, the arrays of tasks live in a heap: a reference is an index into the list
  of arrays allocated so far, \<^verbatim>\<open>[]\<close> and \<^verbatim>\<open>[...tasks]\<close> allocate, \<^verbatim>\<open>push\<close> and \<^verbatim>\<open>sort\<close> update
  the array at a reference. The detectors take the reference of the caller's \<^verbatim>\<open>tasks\<close>
  array and return the heap they leave behind.
\<close>

type_synonym ref = nat
type_synonym heap = "task list list"

definition array_at :: "heap \<Rightarrow> ref \<Rightarrow> task list" where
  "array_at h r = (if r < length h then h ! r else [])"

definition new_array :: "task list \<Rightarrow> heap \<Rightarrow> ref \<times> heap" where
  "new_array xs h = (length h, h @ [xs])"

definition array_push :: "ref \<Rightarrow> task \<Rightarrow> heap \<Rightarrow> heap" where
  "array_push r t h = h[r := array_at h r @ [t]]"

definition array_sort_at :: "(task \<Rightarrow> task \<Rightarrow> int) \<Rightarrow> ref \<Rightarrow> heap \<Rightarrow> heap" where
  "array_sort_at cmp r h = h[r := array_sort cmp (array_at h r)]"

text \<open>Lines 115 to 122 with \<^verbatim>\<open>tasksByTrade\<close> holding references.\<close>

definition tasksByTrade_step_heap :: "(int \<times> ref) list \<times> heap \<Rightarrow> task \<Rightarrow> (int \<times> ref) list \<times> heap" where
  "tasksByTrade_step_heap st t =
     (let m = fst st; h = snd st
      in if eligible t
         then (case trade_id t of
                 None \<Rightarrow> (m, h)
               | Some k \<Rightarrow>
                   (let st1 = (if map_of m k = None
                               then (let a = new_array [] h in (AList.update k (fst a) m, snd a))
                               else (m, h))
                    in (case map_of (fst st1) k of
                          None \<Rightarrow> st1
                        | Some r \<Rightarrow> (fst st1, array_push r t (snd st1)))))
         else (m, h))"

text \<open>
  The loops of lines 128 to 152 read the arrays through their references: \<open>deref\<close> is
  the map with every reference replaced by the array it points to.
\<close>

definition deref :: "heap \<Rightarrow> (int \<times> ref) list \<Rightarrow> (int \<times> task list) list" where
  "deref h m = map (\<lambda>kr. (fst kr, array_at h (snd kr))) m"

definition detectTradeOverlaps_heap :: "ref \<Rightarrow> heap \<Rightarrow> overlap list \<times> heap" where
  "detectTradeOverlaps_heap tasksRef h =
     (let st = foldl tasksByTrade_step_heap ([], h) (array_at h tasksRef);
          trades = map fst (fst st)
      in (trade_loops (deref (snd st) (fst st)) trades, snd st))"

definition detectMissingDependencies_heap :: "ref \<Rightarrow> heap \<Rightarrow> issue list \<times> heap" where
  "detectMissingDependencies_heap tasksRef h =
     (let a = new_array (array_at h tasksRef) h;
          h' = array_sort_at compareTasks (fst a) (snd a)
      in (potentialIssues_loop [] (array_at h' (fst a)), h'))"

definition detectScheduleConflicts_heap :: "ref \<Rightarrow> (int \<rightharpoonup> task) \<Rightarrow> heap \<Rightarrow> conflict list \<times> heap" where
  "detectScheduleConflicts_heap tasksRef taskMap h =
     (detectScheduleConflicts (array_at h tasksRef) taskMap, h)"

text \<open>
  What the first loop of \<^verbatim>\<open>detectTradeOverlaps\<close> keeps true of its map \<open>m\<close> and the heap
  \<open>h'\<close>, when it was called on the heap \<open>h\<close>: the arrays of \<open>h\<close> are still there, unchanged,
  and the references in \<open>m\<close> are distinct and point to arrays allocated since.
\<close>

definition fresh_refs :: "heap \<Rightarrow> (int \<times> ref) list \<Rightarrow> heap \<Rightarrow> bool" where
  "fresh_refs h m h' =
     (take (length h) h' = h \<and> length h \<le> length h' \<and> distinct (map snd m)
      \<and> (\<forall>r \<in> set (map snd m). length h \<le> r \<and> r < length h'))"

section \<open>Example data\<close>

text \<open>
  The dates of the specification's examples: day \<open>d\<close> of January 2024, at midnight UTC.
  \<open>example_task\<close> is a task with the given identity, trade, planned range and declared
  dependencies.
\<close>

definition jan :: "int \<Rightarrow> date" where
  "jan d = 1704067200000 + (d - 1) * msPerDay"

definition example_task :: "int \<Rightarrow> int option \<Rightarrow> date option \<Rightarrow> date option \<Rightarrow> int list \<Rightarrow> task" where
  "example_task i tr s e deps =
     \<lparr>task_id = i, name = ''task'', description = None,
      planned_start_date = s, planned_end_date = e,
      actual_start_date = None, actual_end_date = None,
      status = Some ''planned'', depends_on = Some deps,
      trade_id = tr, trade_name = None\<rparr>"

text \<open>
  A locale that prints every date alike, and a database with the single project \<open>1\<close>
  whose tasks are the given ones.
\<close>

definition example_env :: locale_env where
  "example_env = \<lparr>toLocaleDateString = (\<lambda>d. ''date''), today = ''today''\<rparr>"

definition example_db :: "task list \<Rightarrow> database" where
  "example_db tasks =
     \<lparr>project_names = (\<lambda>i. if i = 1 then Rows [''Chantier''] else Rows []),
      project_tasks = (\<lambda>i. if i = 1 then Rows tasks else Rows [])\<rparr>"

section \<open>Day counts\<close>

lemma ceilDays_ceiling: "ceilDays ms = \<lceil>real_of_int ms / real_of_int msPerDay\<rceil>"
proof -
  have "\<lceil>real_of_int ms / real_of_int msPerDay\<rceil> = - \<lfloor>real_of_int (- ms) / real_of_int msPerDay\<rfloor>"
    by (simp add: ceiling_def)
  also have "\<dots> = - ((- ms) div msPerDay)"
    by (simp only: floor_divide_of_int_eq)
  finally show ?thesis by (simp add: ceilDays_def)
qed

section \<open>Properties of the trade overlap detector\<close>

lemma step_not_eligible: "\<not> eligible t \<Longrightarrow> tasksByTrade_step m t = m"
  by (simp add: tasksByTrade_step_def)

lemma step_get:
  assumes "eligible t" "trade_id t = Some k"
  shows "get_trade (tasksByTrade_step m t) k' = (if k' = k then get_trade m k @ [t] else get_trade m k')"
  using assms
  by (auto simp: tasksByTrade_step_def get_trade_def Let_def update_conv'
      split: option.splits)

lemma step_keys:
  assumes "eligible t" "trade_id t = Some k"
  shows "map fst (tasksByTrade_step m t) = (if k \<in> set (map fst m) then map fst m else map fst m @ [k])"
  using assms
  by (auto simp: tasksByTrade_step_def Let_def update_keys map_of_eq_None_iff
      split: option.splits)

lemma eligible_trade: "eligible t \<Longrightarrow> \<exists>k. trade_id t = Some k \<and> k \<noteq> 0"
  by (auto simp: eligible_def truthy_number_def split: option.splits)

lemma foldl_get:
  "get_trade (foldl tasksByTrade_step m ts) k
     = get_trade m k @ filter (\<lambda>t. eligible t \<and> trade_id t = Some k) ts"
proof (induction ts arbitrary: m)
  case Nil
  then show ?case by simp
next
  case (Cons t ts)
  show ?case
  proof (cases "eligible t")
    case True
    then obtain k' where k': "trade_id t = Some k'" using eligible_trade by blast
    show ?thesis using True k' by (simp add: Cons.IH step_get)
  next
    case False
    then show ?thesis by (simp add: Cons.IH step_not_eligible)
  qed
qed

lemma foldl_keys_set:
  "fst ` set (foldl tasksByTrade_step m ts)
     = fst ` set m \<union> {k. \<exists>t \<in> set ts. eligible t \<and> trade_id t = Some k}"
proof (induction ts arbitrary: m)
  case Nil
  then show ?case by simp
next
  case (Cons t ts)
  have IH: "fst ` set (foldl tasksByTrade_step m (t # ts))
        = fst ` set (tasksByTrade_step m t) \<union> {k. \<exists>t \<in> set ts. eligible t \<and> trade_id t = Some k}"
    using Cons.IH[of "tasksByTrade_step m t"] by simp
  show ?case
  proof (cases "eligible t")
    case True
    then obtain k' where k': "trade_id t = Some k'" using eligible_trade by blast
    have "set (map fst (tasksByTrade_step m t)) = insert k' (set (map fst m))"
      using step_keys[OF True k', of m] by auto
    then have "fst ` set (tasksByTrade_step m t) = insert k' (fst ` set m)" by simp
    then show ?thesis using True k' unfolding IH by auto
  next
    case False
    then have "tasksByTrade_step m t = m" by (rule step_not_eligible)
    then show ?thesis using False unfolding IH by auto
  qed
qed

lemma foldl_keys_distinct:
  "distinct (map fst m) \<Longrightarrow> distinct (map fst (foldl tasksByTrade_step m ts))"
proof (induction ts arbitrary: m)
  case Nil
  then show ?case by simp
next
  case (Cons t ts)
  show ?case
  proof (cases "eligible t")
    case True
    then obtain k' where k': "trade_id t = Some k'" using eligible_trade by blast
    have "distinct (map fst (tasksByTrade_step m t))"
      using step_keys[OF True k', of m] Cons.prems by auto
    then show ?thesis using Cons.IH by simp
  next
    case False
    then show ?thesis using Cons by (simp add: step_not_eligible)
  qed
qed

lemma overlap_check_iff:
  "f \<in> set (overlap_check t1 t2) \<longleftrightarrow>
     new_Date (planned_start_date t1) \<le> new_Date (planned_end_date t2)
     \<and> new_Date (planned_end_date t1) \<ge> new_Date (planned_start_date t2)
     \<and> f = \<lparr>task1 = t1, task2 = t2,
            startOverlap = max (new_Date (planned_start_date t1)) (new_Date (planned_start_date t2)),
            endOverlap = min (new_Date (planned_end_date t1)) (new_Date (planned_end_date t2))\<rparr>"
  by (auto simp: overlap_check_def Let_def max_def min_def)

lemma compare_trades_iff:
  "f \<in> set (compare_trades a b) \<longleftrightarrow> (\<exists>t1 \<in> set a. \<exists>t2 \<in> set b. f \<in> set (overlap_check t1 t2))"
  by (auto simp: compare_trades_def)

lemma trade_loops_iff:
  "f \<in> set (trade_loops m ks) \<longleftrightarrow>
     (\<exists>xs ki ys kj zs. ks = xs @ ki # ys @ kj # zs
        \<and> f \<in> set (compare_trades (get_trade m ki) (get_trade m kj)))"
proof (induction ks)
  case Nil
  then show ?case by simp
next
  case (Cons k ks)
  show ?case (is "?L = ?R")
  proof
    assume ?L
    then consider (a) kj where "kj \<in> set ks" "f \<in> set (compare_trades (get_trade m k) (get_trade m kj))"
      | (b) "f \<in> set (trade_loops m ks)" by auto
    then show ?R
    proof cases
      case a
      then obtain ys zs where "ks = ys @ kj # zs" by (meson split_list)
      then have "k # ks = [] @ k # ys @ kj # zs" by simp
      then show ?thesis using a(2) by blast
    next
      case b
      then obtain xs ki ys kj zs where "ks = xs @ ki # ys @ kj # zs"
        "f \<in> set (compare_trades (get_trade m ki) (get_trade m kj))" using Cons.IH by blast
      then have "k # ks = (k # xs) @ ki # ys @ kj # zs" by simp
      then show ?thesis using \<open>f \<in> set (compare_trades (get_trade m ki) (get_trade m kj))\<close> by blast
    qed
  next
    assume ?R
    then obtain xs ki ys kj zs where eq: "k # ks = xs @ ki # ys @ kj # zs"
      and f: "f \<in> set (compare_trades (get_trade m ki) (get_trade m kj))" by blast
    show ?L
    proof (cases xs)
      case Nil
      then have "k = ki" "ks = ys @ kj # zs" using eq by auto
      then show ?thesis using f by auto
    next
      case (Cons x xs')
      then have "ks = xs' @ ki # ys @ kj # zs" using eq by auto
      then have "f \<in> set (trade_loops m ks)" using Cons.IH f by blast
      then show ?thesis by simp
    qed
  qed
qed

lemma distinct_pair_order:
  assumes "a \<in> set ks" "b \<in> set ks" "a \<noteq> b"
  shows "(\<exists>xs ys zs. ks = xs @ a # ys @ b # zs) \<or> (\<exists>xs ys zs. ks = xs @ b # ys @ a # zs)"
proof -
  obtain xs r where ks: "ks = xs @ a # r" using assms(1) by (meson split_list)
  show ?thesis
  proof (cases "b \<in> set r")
    case True
    then obtain ys zs where "r = ys @ b # zs" by (meson split_list)
    then show ?thesis using ks by blast
  next
    case False
    then have "b \<in> set xs" using assms ks by auto
    then obtain xs1 xs2 where "xs = xs1 @ b # xs2" by (meson split_list)
    then have "ks = xs1 @ b # xs2 @ a # r" using ks by simp
    then show ?thesis by blast
  qed
qed


lemma get_trade_tasksByTrade:
  "get_trade (tasksByTrade tasks) k = filter (\<lambda>t. eligible t \<and> trade_id t = Some k) tasks"
  using foldl_get[of "[]" tasks k] by (simp add: tasksByTrade_def get_trade_def)

lemma detect_iff:
  "f \<in> set (detectTradeOverlaps tasks) \<longleftrightarrow>
     (\<exists>xs k1 ys k2 zs t1 t2. map fst (tasksByTrade tasks) = xs @ k1 # ys @ k2 # zs
        \<and> t1 \<in> set tasks \<and> eligible t1 \<and> trade_id t1 = Some k1
        \<and> t2 \<in> set tasks \<and> eligible t2 \<and> trade_id t2 = Some k2
        \<and> f \<in> set (overlap_check t1 t2))"
  unfolding detectTradeOverlaps_def Let_def trade_loops_iff compare_trades_iff get_trade_tasksByTrade
  by auto

lemma keys_distinct: "distinct (map fst (tasksByTrade tasks))"
  by (simp add: tasksByTrade_def foldl_keys_distinct)

lemma keys_set: "set (map fst (tasksByTrade tasks)) = {k. \<exists>t \<in> set tasks. eligible t \<and> trade_id t = Some k}"
  using foldl_keys_set[of "[]" tasks] by (simp add: tasksByTrade_def)


lemma eligible_iff:
  "eligible t \<longleftrightarrow> (\<exists>k s e. trade_id t = Some k \<and> k \<noteq> 0
       \<and> planned_start_date t = Some s \<and> planned_end_date t = Some e)"
  by (auto simp: eligible_def truthy_number_def truthy_object_def split: option.splits)

lemma pair_reported:
  assumes "a \<in> set tasks" "b \<in> set tasks" "eligible a" "eligible b"
    and "trade_id a = Some ka" "trade_id b = Some kb" "ka \<noteq> kb"
  shows "(\<exists>f \<in> set (detectTradeOverlaps tasks).
            (task1 f = a \<and> task2 f = b) \<or> (task1 f = b \<and> task2 f = a))
         \<longleftrightarrow> (overlap_check a b \<noteq> [])"
proof
  assume "\<exists>f \<in> set (detectTradeOverlaps tasks).
            (task1 f = a \<and> task2 f = b) \<or> (task1 f = b \<and> task2 f = a)"
  then obtain f where f: "f \<in> set (detectTradeOverlaps tasks)"
    and ab: "(task1 f = a \<and> task2 f = b) \<or> (task1 f = b \<and> task2 f = a)" by blast
  from f obtain t1 t2 where c: "f \<in> set (overlap_check t1 t2)"
    unfolding detect_iff by blast
  then have "task1 f = t1" "task2 f = t2" by (auto simp: overlap_check_iff)
  with ab c have "overlap_check a b \<noteq> [] \<or> overlap_check b a \<noteq> []" by auto
  then show "overlap_check a b \<noteq> []"
    by (auto simp: overlap_check_def Let_def split: if_splits)
next
  assume ne: "overlap_check a b \<noteq> []"
  then have ne': "overlap_check b a \<noteq> []"
    by (auto simp: overlap_check_def Let_def split: if_splits)
  have "ka \<in> set (map fst (tasksByTrade tasks))" "kb \<in> set (map fst (tasksByTrade tasks))"
    unfolding keys_set using assms by auto
  then consider
      (ab) xs ys zs where "map fst (tasksByTrade tasks) = xs @ ka # ys @ kb # zs"
    | (ba) xs ys zs where "map fst (tasksByTrade tasks) = xs @ kb # ys @ ka # zs"
    using distinct_pair_order[OF _ _ \<open>ka \<noteq> kb\<close>] by blast
  then show "\<exists>f \<in> set (detectTradeOverlaps tasks).
            (task1 f = a \<and> task2 f = b) \<or> (task1 f = b \<and> task2 f = a)"
  proof cases
    case ab
    obtain f where f: "f \<in> set (overlap_check a b)" using ne by (cases "overlap_check a b") auto
    then have "task1 f = a" "task2 f = b" by (auto simp: overlap_check_iff)
    moreover have "f \<in> set (detectTradeOverlaps tasks)"
      unfolding detect_iff using ab assms f by blast
    ultimately show ?thesis by blast
  next
    case ba
    obtain f where f: "f \<in> set (overlap_check b a)" using ne' by (cases "overlap_check b a") auto
    then have "task1 f = b" "task2 f = a" by (auto simp: overlap_check_iff)
    moreover have "f \<in> set (detectTradeOverlaps tasks)"
      unfolding detect_iff using ba assms f by blast
    ultimately show ?thesis by blast
  qed
qed

lemma finding_tasks:
  assumes "f \<in> set (detectTradeOverlaps tasks)"
  shows "task1 f \<in> set tasks \<and> task2 f \<in> set tasks \<and> eligible (task1 f) \<and> eligible (task2 f)
     \<and> trade_id (task1 f) \<noteq> trade_id (task2 f) \<and> f \<in> set (overlap_check (task1 f) (task2 f))"
proof -
  from assms obtain xs k1 ys k2 zs t1 t2 where
    keys: "map fst (tasksByTrade tasks) = xs @ k1 # ys @ k2 # zs"
    and t1: "t1 \<in> set tasks" "eligible t1" "trade_id t1 = Some k1"
    and t2: "t2 \<in> set tasks" "eligible t2" "trade_id t2 = Some k2"
    and f: "f \<in> set (overlap_check t1 t2)"
    unfolding detect_iff by blast
  have "distinct (xs @ k1 # ys @ k2 # zs)" using keys_distinct[of tasks] keys by simp
  then have "k1 \<noteq> k2" by auto
  moreover have "task1 f = t1" "task2 f = t2" using f by (auto simp: overlap_check_iff)
  ultimately show ?thesis using t1 t2 f by simp
qed




lemma overlap_check_window:
  assumes "f \<in> set (overlap_check t1 t2)"
  shows "new_Date (planned_start_date t1) \<le> new_Date (planned_end_date t2)"
    and "new_Date (planned_end_date t1) \<ge> new_Date (planned_start_date t2)"
    and "startOverlap f = max (new_Date (planned_start_date t1)) (new_Date (planned_start_date t2))"
    and "endOverlap f = min (new_Date (planned_end_date t1)) (new_Date (planned_end_date t2))"
  using assms by (auto simp: overlap_check_def Let_def max_def min_def split: if_splits)

lemma finding_window:
  assumes "f \<in> set (detectTradeOverlaps tasks)"
  shows "\<exists>s1 e1 s2 e2.
       planned_start_date (task1 f) = Some s1 \<and> planned_end_date (task1 f) = Some e1
       \<and> planned_start_date (task2 f) = Some s2 \<and> planned_end_date (task2 f) = Some e2
       \<and> s1 \<le> e2 \<and> e1 \<ge> s2
       \<and> startOverlap f = max s1 s2 \<and> endOverlap f = min e1 e2"
proof -
  from finding_tasks[OF assms] have e1: "eligible (task1 f)" and e2: "eligible (task2 f)"
    and f: "f \<in> set (overlap_check (task1 f) (task2 f))" by simp_all
  from e1 obtain s1 e1 where 1: "planned_start_date (task1 f) = Some s1" "planned_end_date (task1 f) = Some e1"
    unfolding eligible_iff by blast
  from e2 obtain s2 e2 where 2: "planned_start_date (task2 f) = Some s2" "planned_end_date (task2 f) = Some e2"
    unfolding eligible_iff by blast
  from overlap_check_window[OF f]
  have "s1 \<le> e2 \<and> e1 \<ge> s2 \<and> startOverlap f = max s1 s2 \<and> endOverlap f = min e1 e2"
    using 1 2 by (simp add: new_Date_def)
  then show ?thesis using 1 2 by blast
qed

text \<open>
  Claim C2, as amended. Every finding spans from the later of the two planned starts to
  the earlier of the two planned ends, and the day count logged for it is the ceiling of
  that span over one day. For two tasks of distinct trades (neither with the identity
  \<open>0\<close>) with the ranges January 1 to 5 and January 5 to 10 a finding is reported, its
  window starts and ends on January 5, and its day count is \<open>0\<close>.
\<close>

theorem overlap_window_and_days:
  "(\<forall>f \<in> set (detectTradeOverlaps tasks). \<exists>s1 e1 s2 e2.
       planned_start_date (task1 f) = Some s1 \<and> planned_end_date (task1 f) = Some e1
       \<and> planned_start_date (task2 f) = Some s2 \<and> planned_end_date (task2 f) = Some e2
       \<and> startOverlap f = max s1 s2 \<and> endOverlap f = min e1 e2
       \<and> daysOverlap f = \<lceil>real_of_int (endOverlap f - startOverlap f) / real_of_int msPerDay\<rceil>)
   \<and> (a \<in> set tasks \<and> b \<in> set tasks \<and> trade_id a = Some ka \<and> trade_id b = Some kb
        \<and> ka \<noteq> 0 \<and> kb \<noteq> 0 \<and> ka \<noteq> kb
        \<and> planned_start_date a = Some (jan 1) \<and> planned_end_date a = Some (jan 5)
        \<and> planned_start_date b = Some (jan 5) \<and> planned_end_date b = Some (jan 10)
      \<longrightarrow> (\<exists>f \<in> set (detectTradeOverlaps tasks).
              (task1 f = a \<and> task2 f = b) \<or> (task1 f = b \<and> task2 f = a))
          \<and> (\<forall>f \<in> set (detectTradeOverlaps tasks).
              (task1 f = a \<and> task2 f = b) \<or> (task1 f = b \<and> task2 f = a)
              \<longrightarrow> startOverlap f = jan 5 \<and> endOverlap f = jan 5 \<and> daysOverlap f = 0))"
proof -
  have general: "\<exists>s1 e1 s2 e2.
       planned_start_date (task1 f) = Some s1 \<and> planned_end_date (task1 f) = Some e1
       \<and> planned_start_date (task2 f) = Some s2 \<and> planned_end_date (task2 f) = Some e2
       \<and> startOverlap f = max s1 s2 \<and> endOverlap f = min e1 e2
       \<and> daysOverlap f = \<lceil>real_of_int (endOverlap f - startOverlap f) / real_of_int msPerDay\<rceil>"
    if "f \<in> set (detectTradeOverlaps tasks)" for f
    using finding_window[OF that] unfolding daysOverlap_def ceilDays_ceiling by blast
  have example: "(\<exists>f \<in> set (detectTradeOverlaps tasks).
              (task1 f = a \<and> task2 f = b) \<or> (task1 f = b \<and> task2 f = a))
          \<and> (\<forall>f \<in> set (detectTradeOverlaps tasks).
              (task1 f = a \<and> task2 f = b) \<or> (task1 f = b \<and> task2 f = a)
              \<longrightarrow> startOverlap f = jan 5 \<and> endOverlap f = jan 5 \<and> daysOverlap f = 0)"
    if h: "a \<in> set tasks \<and> b \<in> set tasks \<and> trade_id a = Some ka \<and> trade_id b = Some kb
        \<and> ka \<noteq> 0 \<and> kb \<noteq> 0 \<and> ka \<noteq> kb
        \<and> planned_start_date a = Some (jan 1) \<and> planned_end_date a = Some (jan 5)
        \<and> planned_start_date b = Some (jan 5) \<and> planned_end_date b = Some (jan 10)"
  proof -
    have ea: "eligible a" and eb: "eligible b" using h by (auto simp: eligible_iff)
    have "overlap_check a b \<noteq> []"
      using h by (simp add: overlap_check_def new_Date_def jan_def msPerDay_def)
    then have ex: "\<exists>f \<in> set (detectTradeOverlaps tasks).
              (task1 f = a \<and> task2 f = b) \<or> (task1 f = b \<and> task2 f = a)"
      using pair_reported[OF _ _ ea eb, of tasks ka kb] h by simp
    have all: "startOverlap f = jan 5 \<and> endOverlap f = jan 5 \<and> daysOverlap f = 0"
      if f: "f \<in> set (detectTradeOverlaps tasks)"
        and ab: "(task1 f = a \<and> task2 f = b) \<or> (task1 f = b \<and> task2 f = a)" for f
    proof -
      from finding_window[OF f] obtain s1 e1 s2 e2 where w:
        "planned_start_date (task1 f) = Some s1" "planned_end_date (task1 f) = Some e1"
        "planned_start_date (task2 f) = Some s2" "planned_end_date (task2 f) = Some e2"
        "startOverlap f = max s1 s2" "endOverlap f = min e1 e2" by blast
      have j: "jan 1 \<le> jan 5" "jan 5 \<le> jan 10" by (simp_all add: jan_def msPerDay_def)
      from ab w h j have "startOverlap f = jan 5 \<and> endOverlap f = jan 5" by auto
      then show ?thesis by (simp add: daysOverlap_def ceilDays_def)
    qed
    show ?thesis using ex all by blast
  qed
  show ?thesis using general example by blast
qed

theorem overlap_window_and_days_witness:
  "\<exists>f \<in> set (detectTradeOverlaps
            [example_task 1 (Some 1) (Some (jan 1)) (Some (jan 5)) [],
             example_task 2 (Some 2) (Some (jan 5)) (Some (jan 10)) []]).
      ((task1 f = example_task 1 (Some 1) (Some (jan 1)) (Some (jan 5)) []
            \<and> task2 f = example_task 2 (Some 2) (Some (jan 5)) (Some (jan 10)) [])
          \<or> (task1 f = example_task 2 (Some 2) (Some (jan 5)) (Some (jan 10)) []
            \<and> task2 f = example_task 1 (Some 1) (Some (jan 1)) (Some (jan 5)) []))
      \<and> startOverlap f = jan 5 \<and> endOverlap f = jan 5 \<and> daysOverlap f = 0"
proof -
  let ?a = "example_task 1 (Some 1) (Some (jan 1)) (Some (jan 5)) []"
  let ?b = "example_task 2 (Some 2) (Some (jan 5)) (Some (jan 10)) []"
  have h: "?a \<in> set [?a, ?b] \<and> ?b \<in> set [?a, ?b] \<and> trade_id ?a = Some 1 \<and> trade_id ?b = Some 2
        \<and> (1::int) \<noteq> 0 \<and> (2::int) \<noteq> 0 \<and> (1::int) \<noteq> 2
        \<and> planned_start_date ?a = Some (jan 1) \<and> planned_end_date ?a = Some (jan 5)
        \<and> planned_start_date ?b = Some (jan 5) \<and> planned_end_date ?b = Some (jan 10)"
    by (simp add: example_task_def)
  from overlap_window_and_days[of "[?a, ?b]" ?a ?b 1 2] h show ?thesis by blast
qed

text \<open>
  The claim's own figure for that pair, a day count of \<open>1\<close>, is not what the code
  computes: the list of day counts for the two tasks is \<open>[0]\<close>.
\<close>

theorem overlap_boundary_days_counterexample:
  "map daysOverlap (detectTradeOverlaps
      [example_task 1 (Some 1) (Some (jan 1)) (Some (jan 5)) [],
       example_task 2 (Some 2) (Some (jan 5)) (Some (jan 10)) []]) = [0]
   \<and> map daysOverlap (detectTradeOverlaps
      [example_task 1 (Some 1) (Some (jan 1)) (Some (jan 5)) [],
       example_task 2 (Some 2) (Some (jan 5)) (Some (jan 10)) []]) \<noteq> [1]"
  by (simp add: detectTradeOverlaps_def tasksByTrade_def tasksByTrade_step_def eligible_def
      example_task_def truthy_number_def truthy_object_def get_trade_def compare_trades_def
      overlap_check_def new_Date_def jan_def msPerDay_def daysOverlap_def ceilDays_def)

section \<open>Properties of the schedule conflict detector\<close>

lemma ceilDays_pos: "0 < ms \<Longrightarrow> 0 < ceilDays ms"
proof -
  assume "0 < ms"
  then have "(- ms) div msPerDay < 0"
    by (simp add: msPerDay_def div_neg_pos_less0)
  then show ?thesis by (simp add: ceilDays_def)
qed

lemma dependencies_loop_iff:
  "c \<in> set (dependencies_loop tm t s ds) \<longleftrightarrow>
     (\<exists>d \<in> set ds. \<exists>dep e. tm d = Some dep \<and> planned_end_date dep = Some e \<and> s < e
        \<and> c = \<lparr>conflict_task = t, dependency = dep, daysConflict = ceilDays (e - s)\<rparr>)"
  by (induction ds) (auto simp: truthy_object_def new_Date_def Let_def split: option.splits)

lemma task_conflicts_iff:
  "c \<in> set (task_conflicts tm t) \<longleftrightarrow>
     (\<exists>ds s. depends_on t = Some ds \<and> planned_start_date t = Some s
        \<and> c \<in> set (dependencies_loop tm t s ds))"
  by (cases "depends_on t"; cases "planned_start_date t")
     (auto simp: task_conflicts_def truthy_object_def new_Date_def)

lemma detectScheduleConflicts_iff:
  "c \<in> set (detectScheduleConflicts tasks tm) \<longleftrightarrow>
     (\<exists>t \<in> set tasks. \<exists>ds s. depends_on t = Some ds \<and> planned_start_date t = Some s
        \<and> (\<exists>d \<in> set ds. \<exists>dep e. tm d = Some dep \<and> planned_end_date dep = Some e \<and> s < e
        \<and> c = \<lparr>conflict_task = t, dependency = dep, daysConflict = ceilDays (e - s)\<rparr>))"
  by (auto simp: detectScheduleConflicts_def task_conflicts_iff dependencies_loop_iff)

lemma conflict_positive:
  assumes "c \<in> set (detectScheduleConflicts tasks tm)"
  shows "0 < daysConflict c"
proof -
  from assms obtain t dep e s where "s < e"
    "c = \<lparr>conflict_task = t, dependency = dep, daysConflict = ceilDays (e - s)\<rparr>"
    unfolding detectScheduleConflicts_iff by blast
  then show ?thesis using ceilDays_pos[of "e - s"] by simp
qed

text \<open>
  Claim C3. Take a task of the collection with a planned start \<open>s\<close> and a declared
  dependency identity that the lookup resolves to a task with a planned end \<open>e\<close>. A
  conflict of the task with that dependency is flagged exactly when \<open>s < e\<close>; its
  magnitude is the ceiling of \<open>e - s\<close> over one day; every flagged magnitude is strictly
  positive. With a start on January 10, an end on January 15 and no other dependency the
  task yields exactly one conflict, of 5 days; with a start on January 20 it yields none.
\<close>

theorem detectScheduleConflicts_flags:
  assumes "t \<in> set tasks" and "depends_on t = Some ds" and "d \<in> set ds"
    and "planned_start_date t = Some s"
    and "taskMap d = Some dep" and "planned_end_date dep = Some e"
  shows "((\<exists>c \<in> set (detectScheduleConflicts tasks taskMap).
             conflict_task c = t \<and> dependency c = dep) \<longleftrightarrow> s < e)
       \<and> (\<forall>c \<in> set (detectScheduleConflicts tasks taskMap).
             conflict_task c = t \<and> dependency c = dep \<longrightarrow>
             daysConflict c = \<lceil>real_of_int (e - s) / real_of_int msPerDay\<rceil>)
       \<and> (\<forall>c \<in> set (detectScheduleConflicts tasks taskMap). 0 < daysConflict c)
       \<and> (s = jan 10 \<and> e = jan 15 \<and> ds = [d] \<longrightarrow>
             task_conflicts taskMap t = [\<lparr>conflict_task = t, dependency = dep, daysConflict = 5\<rparr>])
       \<and> (s = jan 20 \<and> e = jan 15 \<and> ds = [d] \<longrightarrow> task_conflicts taskMap t = [])"
proof -
  have flagged: "(\<exists>c \<in> set (detectScheduleConflicts tasks taskMap).
             conflict_task c = t \<and> dependency c = dep) \<longleftrightarrow> s < e"
  proof
    assume "\<exists>c \<in> set (detectScheduleConflicts tasks taskMap).
             conflict_task c = t \<and> dependency c = dep"
    then obtain c where c: "c \<in> set (detectScheduleConflicts tasks taskMap)"
      "conflict_task c = t" "dependency c = dep" by blast
    from c(1) obtain t' dep' e' s' where
      "planned_start_date t' = Some s'" "planned_end_date dep' = Some e'" "s' < e'"
      "c = \<lparr>conflict_task = t', dependency = dep', daysConflict = ceilDays (e' - s')\<rparr>"
      unfolding detectScheduleConflicts_iff by blast
    with c(2,3) assms show "s < e" by auto
  next
    assume "s < e"
    then have "\<lparr>conflict_task = t, dependency = dep, daysConflict = ceilDays (e - s)\<rparr>
        \<in> set (detectScheduleConflicts tasks taskMap)"
      unfolding detectScheduleConflicts_iff using assms by blast
    then show "\<exists>c \<in> set (detectScheduleConflicts tasks taskMap).
             conflict_task c = t \<and> dependency c = dep" by force
  qed
  have magnitude: "daysConflict c = \<lceil>real_of_int (e - s) / real_of_int msPerDay\<rceil>"
    if c: "c \<in> set (detectScheduleConflicts tasks taskMap)"
      and ct: "conflict_task c = t \<and> dependency c = dep" for c
  proof -
    from c obtain t' dep' e' s' where
      "planned_start_date t' = Some s'" "planned_end_date dep' = Some e'"
      "c = \<lparr>conflict_task = t', dependency = dep', daysConflict = ceilDays (e' - s')\<rparr>"
      unfolding detectScheduleConflicts_iff by blast
    with ct assms have "daysConflict c = ceilDays (e - s)" by auto
    then show ?thesis by (simp add: ceilDays_ceiling)
  qed
  have positive: "\<forall>c \<in> set (detectScheduleConflicts tasks taskMap). 0 < daysConflict c"
    using conflict_positive by blast
  have ex1: "task_conflicts taskMap t = [\<lparr>conflict_task = t, dependency = dep, daysConflict = 5\<rparr>]"
    if "s = jan 10 \<and> e = jan 15 \<and> ds = [d]"
    using that assms
    by (simp add: task_conflicts_def truthy_object_def new_Date_def jan_def msPerDay_def ceilDays_def)
  have ex2: "task_conflicts taskMap t = []" if "s = jan 20 \<and> e = jan 15 \<and> ds = [d]"
    using that assms
    by (simp add: task_conflicts_def truthy_object_def new_Date_def jan_def msPerDay_def)
  show ?thesis using flagged magnitude positive ex1 ex2 by blast
qed

theorem detectScheduleConflicts_flags_witness:
  "detectScheduleConflicts
     [example_task 1 (Some 1) (Some (jan 1)) (Some (jan 15)) [],
      example_task 2 (Some 2) (Some (jan 10)) (Some (jan 18)) [1]]
     (taskMap_of [example_task 1 (Some 1) (Some (jan 1)) (Some (jan 15)) [],
      example_task 2 (Some 2) (Some (jan 10)) (Some (jan 18)) [1]])
   = [\<lparr>conflict_task = example_task 2 (Some 2) (Some (jan 10)) (Some (jan 18)) [1],
       dependency = example_task 1 (Some 1) (Some (jan 1)) (Some (jan 15)) [],
       daysConflict = 5\<rparr>]
   \<and> jan 10 < jan 15"
proof -
  let ?d = "example_task 1 (Some 1) (Some (jan 1)) (Some (jan 15)) []"
  let ?t = "example_task 2 (Some 2) (Some (jan 10)) (Some (jan 18)) [1]"
  have tm: "taskMap_of [?d, ?t] 1 = Some ?d"
    by (simp add: taskMap_of_def init_step_def example_task_def)
  have hyps: "?t \<in> set [?d, ?t]" "depends_on ?t = Some [1]" "(1::int) \<in> set [1]"
    "planned_start_date ?t = Some (jan 10)" "planned_end_date ?d = Some (jan 15)"
    by (simp_all add: example_task_def)
  have d0: "task_conflicts (taskMap_of [?d, ?t]) ?d = []"
    by (simp add: task_conflicts_def example_task_def)
  from detectScheduleConflicts_flags[where t = ?t and tasks = "[?d, ?t]" and ds = "[1]"
      and d = 1 and s = "jan 10" and taskMap = "taskMap_of [?d, ?t]" and dep = ?d
      and e = "jan 15", OF hyps(1,2,3,4) tm hyps(5)]
  have "task_conflicts (taskMap_of [?d, ?t]) ?t
      = [\<lparr>conflict_task = ?t, dependency = ?d, daysConflict = 5\<rparr>]" by simp
  then have "detectScheduleConflicts [?d, ?t] (taskMap_of [?d, ?t])
      = [\<lparr>conflict_task = ?t, dependency = ?d, daysConflict = 5\<rparr>]"
    using d0 by (simp add: detectScheduleConflicts_def)
  moreover have "jan 10 < jan 15" by (simp add: jan_def msPerDay_def)
  ultimately show ?thesis by simp
qed

section \<open>Properties of the sort\<close>

lemma mset_insert_sorted: "mset (insert_sorted cmp x ys) = add_mset x (mset ys)"
  by (induction ys) auto

lemma mset_foldl_insert:
  "mset (foldl (\<lambda>acc x. insert_sorted cmp x acc) acc xs) = mset acc + mset xs"
  by (induction xs arbitrary: acc) (auto simp: mset_insert_sorted)

lemma mset_sortedTasks: "mset (sortedTasks tasks) = mset tasks"
  by (simp add: sortedTasks_def array_sort_def mset_foldl_insert)

lemma set_insert_sorted: "set (insert_sorted cmp x ys) = insert x (set ys)"
  by (induction ys) auto

lemma chronological_trans: "chronological a b \<Longrightarrow> chronological b c \<Longrightarrow> chronological a c"
  by (auto simp: chronological_def split: option.splits)

lemma compare_neg: "compareTasks x y < 0 \<Longrightarrow> chronological x y"
  by (auto simp: compareTasks_def chronological_def truthy_object_def new_Date_def
      split: option.splits if_splits)

lemma compare_nonneg: "\<not> compareTasks x y < 0 \<Longrightarrow> chronological y x"
  by (auto simp: compareTasks_def chronological_def truthy_object_def new_Date_def
      split: option.splits if_splits)

lemma sorted_insert_sorted:
  "sorted_wrt chronological ys \<Longrightarrow> sorted_wrt chronological (insert_sorted compareTasks x ys)"
proof (induction ys)
  case Nil
  then show ?case by simp
next
  case (Cons y ys)
  show ?case
  proof (cases "compareTasks x y < 0")
    case True
    then have xy: "chronological x y" by (rule compare_neg)
    have "\<forall>z \<in> set ys. chronological x z"
      using Cons.prems xy chronological_trans by auto
    then show ?thesis using True xy Cons.prems by simp
  next
    case False
    then have yx: "chronological y x" by (rule compare_nonneg)
    have "sorted_wrt chronological (insert_sorted compareTasks x ys)"
      using Cons by simp
    then show ?thesis using False yx Cons.prems by (auto simp: set_insert_sorted)
  qed
qed

lemma sorted_foldl_insert:
  "sorted_wrt chronological acc \<Longrightarrow>
   sorted_wrt chronological (foldl (\<lambda>acc x. insert_sorted compareTasks x acc) acc xs)"
  by (induction xs arbitrary: acc) (auto simp: sorted_insert_sorted)

lemma sorted_sortedTasks: "sorted_wrt chronological (sortedTasks tasks)"
  by (simp add: sortedTasks_def array_sort_def sorted_foldl_insert)

lemma started_before:
  assumes "sorted_wrt chronological xs" "i < length xs" "j < i"
    and "planned_start_date (xs ! i) \<noteq> None"
  shows "planned_start_date (xs ! j) \<noteq> None"
proof -
  have "chronological (xs ! j) (xs ! i)"
    using assms(1,2,3) by (simp add: sorted_wrt_iff_nth_less)
  then show ?thesis using assms(4) by (auto simp: chronological_def split: option.splits)
qed

text \<open>
  The sort is the stable sort by planned start of the tasks that have one, followed by
  the tasks that have none in the order they came in.
\<close>

lemma insert_startless:
  "planned_start_date x = None \<Longrightarrow> insert_sorted compareTasks x ys = ys @ [x]"
  by (induction ys) (auto simp: compareTasks_def truthy_object_def)

lemma filter_startless_insert:
  "filter (\<lambda>t. planned_start_date t = None) (insert_sorted compareTasks x ys)
     = filter (\<lambda>t. planned_start_date t = None) ys
       @ (if planned_start_date x = None then [x] else [])"
proof (cases "planned_start_date x = None")
  case True
  then show ?thesis by (simp add: insert_startless)
next
  case False
  then show ?thesis by (induction ys) auto
qed

lemma filter_startless_foldl:
  "filter (\<lambda>t. planned_start_date t = None)
      (foldl (\<lambda>acc x. insert_sorted compareTasks x acc) acc xs)
     = filter (\<lambda>t. planned_start_date t = None) acc
       @ filter (\<lambda>t. planned_start_date t = None) xs"
  by (induction xs arbitrary: acc) (auto simp: filter_startless_insert)

lemma filter_startless_sortedTasks:
  "filter (\<lambda>t. planned_start_date t = None) (sortedTasks tasks)
     = filter (\<lambda>t. planned_start_date t = None) tasks"
  by (simp add: sortedTasks_def array_sort_def filter_startless_foldl)

lemma filter_key_insert:
  assumes "sorted_wrt chronological ys"
  shows "filter (\<lambda>t. planned_start_date t = Some c) (insert_sorted compareTasks x ys)
     = filter (\<lambda>t. planned_start_date t = Some c) ys
       @ (if planned_start_date x = Some c then [x] else [])"
  using assms
proof (induction ys)
  case Nil
  then show ?case by simp
next
  case (Cons y ys)
  show ?case
  proof (cases "compareTasks x y < 0")
    case True
    show ?thesis
    proof (cases "planned_start_date x = Some c")
      case xc: True
      have y: "planned_start_date y \<noteq> Some c"
        using True xc by (auto simp: compareTasks_def truthy_object_def new_Date_def split: if_splits)
      have "\<forall>z \<in> set ys. planned_start_date z \<noteq> Some c"
      proof
        fix z assume "z \<in> set ys"
        then have "chronological y z" using Cons.prems by simp
        then show "planned_start_date z \<noteq> Some c"
          using True xc
          by (auto simp: chronological_def compareTasks_def truthy_object_def new_Date_def
              split: option.splits if_splits)
      qed
      then have "filter (\<lambda>t. planned_start_date t = Some c) ys = []"
        by (simp add: filter_empty_conv)
      then show ?thesis using True xc y by simp
    next
      case False
      then show ?thesis using True by simp
    qed
  next
    case False
    then show ?thesis using Cons by simp
  qed
qed

lemma filter_key_foldl:
  assumes "sorted_wrt chronological acc"
  shows "filter (\<lambda>t. planned_start_date t = Some c)
      (foldl (\<lambda>acc x. insert_sorted compareTasks x acc) acc xs)
     = filter (\<lambda>t. planned_start_date t = Some c) acc
       @ filter (\<lambda>t. planned_start_date t = Some c) xs"
  using assms
  by (induction xs arbitrary: acc) (auto simp: filter_key_insert sorted_insert_sorted)

lemma filter_key_sortedTasks:
  "filter (\<lambda>t. planned_start_date t = Some c) (sortedTasks tasks)
     = filter (\<lambda>t. planned_start_date t = Some c) tasks"
  using filter_key_foldl[of "[]" c tasks] by (simp add: sortedTasks_def array_sort_def)

lemma startless_last_split:
  assumes "sorted_wrt chronological xs"
  shows "xs = filter (\<lambda>t. planned_start_date t \<noteq> None) xs
            @ filter (\<lambda>t. planned_start_date t = None) xs"
  using assms
proof (induction xs)
  case Nil
  then show ?case by simp
next
  case (Cons x xs)
  show ?case
  proof (cases "planned_start_date x")
    case None
    then have "\<forall>z \<in> set xs. planned_start_date z = None"
      using Cons.prems by (auto simp: chronological_def)
    then have "filter (\<lambda>t. planned_start_date t \<noteq> None) xs = []"
      "filter (\<lambda>t. planned_start_date t = None) xs = xs"
      by (simp_all add: filter_empty_conv filter_id_conv)
    then show ?thesis using None by simp
  next
    case (Some s)
    then show ?thesis using Cons by simp
  qed
qed

lemma sorted_started:
  assumes "sorted_wrt chronological xs"
  shows "sorted (map (\<lambda>t. new_Date (planned_start_date t))
            (filter (\<lambda>t. planned_start_date t \<noteq> None) xs))"
  using assms
  by (induction xs) (auto simp: chronological_def new_Date_def split: option.splits)

lemma sortedTasks_stable:
  "sortedTasks tasks
     = sort_key (\<lambda>t. new_Date (planned_start_date t))
         (filter (\<lambda>t. planned_start_date t \<noteq> None) tasks)
       @ filter (\<lambda>t. planned_start_date t = None) tasks"
proof -
  let ?f = "\<lambda>t. new_Date (planned_start_date t)"
  let ?S = "\<lambda>t. planned_start_date t \<noteq> None"
  let ?ys = "filter ?S (sortedTasks tasks)"
  let ?xs = "filter ?S tasks"
  have m: "mset ?ys = mset ?xs" by (simp add: mset_sortedTasks)
  have s: "sorted (map ?f ?ys)" using sorted_started[OF sorted_sortedTasks] .
  have st: "filter (\<lambda>x. ?f k = ?f x) ?ys = filter (\<lambda>x. ?f k = ?f x) ?xs" if "k \<in> set ?ys" for k
  proof -
    from that obtain c where c: "planned_start_date k = Some c" by auto
    have eq: "(\<lambda>x. ?S x \<and> ?f k = ?f x) = (\<lambda>x. planned_start_date x = Some c)"
      using c by (auto simp: fun_eq_iff new_Date_def)
    have "filter (\<lambda>x. ?f k = ?f x) ?ys = filter (\<lambda>x. ?S x \<and> ?f k = ?f x) (sortedTasks tasks)"
      by (simp add: conj_commute)
    also have "\<dots> = filter (\<lambda>x. ?S x \<and> ?f k = ?f x) tasks"
      unfolding eq by (rule filter_key_sortedTasks)
    also have "\<dots> = filter (\<lambda>x. ?f k = ?f x) ?xs" by (simp add: conj_commute)
    finally show ?thesis .
  qed
  have "sort_key ?f ?xs = ?ys" using m st s by (rule properties_for_sort_key)
  then show ?thesis
    using startless_last_split[OF sorted_sortedTasks, of tasks] filter_startless_sortedTasks[of tasks]
    by simp
qed

section \<open>Properties of the missing dependency inferrer\<close>

lemma potentialDependencies_loop_iff:
  "c \<in> set (potentialDependencies_loop cur s prevs) \<longleftrightarrow>
     (\<exists>p \<in> set prevs. \<exists>e. planned_end_date p = Some e \<and> notDeclared cur p
        \<and> 0 \<le> ceilDays (s - e) \<and> ceilDays (s - e) \<le> 5
        \<and> c = \<lparr>candidate_task = p, daysBetween = ceilDays (s - e)\<rparr>)"
  by (induction prevs) (auto simp: truthy_object_def new_Date_def Let_def)

lemma potentialIssues_loop_iff:
  "f \<in> set (potentialIssues_loop prevs rest) \<longleftrightarrow>
     (\<exists>i < length rest. \<exists>s. planned_start_date (rest ! i) = Some s
        \<and> \<not> hasDependencies (rest ! i)
        \<and> potentialDependencies_loop (rest ! i) s (prevs @ take i rest) \<noteq> []
        \<and> f = \<lparr>issue_task = rest ! i,
               potentialDependencies = potentialDependencies_loop (rest ! i) s (prevs @ take i rest),
               issue_type = ''missing_dependency''\<rparr>)"
proof (induction rest arbitrary: prevs)
  case Nil
  then show ?case by simp
next
  case (Cons t rest)
  let ?P = "\<lambda>pre r i s. planned_start_date (r ! i) = Some s
        \<and> \<not> hasDependencies (r ! i)
        \<and> potentialDependencies_loop (r ! i) s (pre @ take i r) \<noteq> []
        \<and> f = \<lparr>issue_task = r ! i,
               potentialDependencies = potentialDependencies_loop (r ! i) s (pre @ take i r),
               issue_type = ''missing_dependency''\<rparr>"
  have shift: "(\<exists>i < length (t # rest). \<exists>s. ?P prevs (t # rest) i s)
      \<longleftrightarrow> (\<exists>s. ?P prevs (t # rest) 0 s) \<or> (\<exists>i < length rest. \<exists>s. ?P (prevs @ [t]) rest i s)"
    (is "?L \<longleftrightarrow> ?A \<or> ?B")
  proof
    assume ?L
    then obtain i s where i: "i < length (t # rest)" "?P prevs (t # rest) i s" by blast
    show "?A \<or> ?B"
    proof (cases i)
      case 0
      then show ?thesis using i by blast
    next
      case (Suc k)
      then have "k < length rest" "?P (prevs @ [t]) rest k s" using i by auto
      then show ?thesis by blast
    qed
  next
    assume "?A \<or> ?B"
    then show ?L
    proof
      assume ?A then show ?L by auto
    next
      assume ?B
      then obtain k s where "k < length rest" "?P (prevs @ [t]) rest k s" by blast
      then have "Suc k < length (t # rest)" "?P prevs (t # rest) (Suc k) s" by auto
      then show ?L by blast
    qed
  qed
  have head: "f \<in> set (potentialIssues_loop prevs (t # rest))
      \<longleftrightarrow> (\<exists>s. ?P prevs (t # rest) 0 s) \<or> f \<in> set (potentialIssues_loop (prevs @ [t]) rest)"
    by (cases "planned_start_date t") (auto simp: truthy_object_def new_Date_def Let_def)
  show ?case unfolding head shift Cons.IH[of "prevs @ [t]"] by simp
qed

lemma detectMissingDependencies_iff:
  "f \<in> set (detectMissingDependencies tasks) \<longleftrightarrow>
     (\<exists>i < length (sortedTasks tasks). \<exists>s.
        planned_start_date (sortedTasks tasks ! i) = Some s
        \<and> \<not> hasDependencies (sortedTasks tasks ! i)
        \<and> potentialDependencies_loop (sortedTasks tasks ! i) s (take i (sortedTasks tasks)) \<noteq> []
        \<and> f = \<lparr>issue_task = sortedTasks tasks ! i,
               potentialDependencies =
                 potentialDependencies_loop (sortedTasks tasks ! i) s (take i (sortedTasks tasks)),
               issue_type = ''missing_dependency''\<rparr>)"
  unfolding detectMissingDependencies_def potentialIssues_loop_iff by simp

lemma finding_shape:
  assumes "f \<in> set (detectMissingDependencies tasks)"
  shows "potentialDependencies f \<noteq> [] \<and> \<not> hasDependencies (issue_task f)
     \<and> planned_start_date (issue_task f) \<noteq> None"
  using assms unfolding detectMissingDependencies_iff by auto

lemma candidate_shape:
  assumes "f \<in> set (detectMissingDependencies tasks)" "c \<in> set (potentialDependencies f)"
  shows "\<exists>s e. planned_start_date (issue_task f) = Some s
     \<and> planned_end_date (candidate_task c) = Some e
     \<and> daysBetween c = ceilDays (s - e) \<and> 0 \<le> daysBetween c \<and> daysBetween c \<le> 5
     \<and> notDeclared (issue_task f) (candidate_task c)
     \<and> planned_start_date (candidate_task c) \<noteq> None"
proof -
  let ?S = "sortedTasks tasks"
  from assms(1) obtain i s where i: "i < length ?S" "planned_start_date (?S ! i) = Some s"
    and f: "f = \<lparr>issue_task = ?S ! i,
               potentialDependencies = potentialDependencies_loop (?S ! i) s (take i ?S),
               issue_type = ''missing_dependency''\<rparr>"
    unfolding detectMissingDependencies_iff by blast
  from assms(2) f have "c \<in> set (potentialDependencies_loop (?S ! i) s (take i ?S))" by simp
  then obtain p e where p: "p \<in> set (take i ?S)" "planned_end_date p = Some e"
    "notDeclared (?S ! i) p" "0 \<le> ceilDays (s - e)" "ceilDays (s - e) \<le> 5"
    "c = \<lparr>candidate_task = p, daysBetween = ceilDays (s - e)\<rparr>"
    unfolding potentialDependencies_loop_iff by blast
  from p(1) obtain j where j: "j < i" "p = ?S ! j"
    using i(1) by (auto simp: in_set_conv_nth)
  have "planned_start_date p \<noteq> None"
    using started_before[OF sorted_sortedTasks i(1) j(1)] i(2) j(2) by simp
  then show ?thesis using f i p by simp
qed







text \<open>
  Claim C5, as amended. The sort keeps every task and puts the tasks in chronological
  order, those without a planned start last (it is the stable sort by planned start,
  followed by the tasks without one): whatever follows a task without a planned start
  has none either. A task without a planned start is never the subject of a
  finding, and it is never a candidate predecessor: every candidate of every finding has
  a planned start as well as a planned end.
\<close>

theorem startless_tasks_sort_last:
  "mset (sortedTasks tasks) = mset tasks
   \<and> sorted_wrt chronological (sortedTasks tasks)
   \<and> sortedTasks tasks
       = sort_key (\<lambda>t. new_Date (planned_start_date t))
           (filter (\<lambda>t. planned_start_date t \<noteq> None) tasks)
         @ filter (\<lambda>t. planned_start_date t = None) tasks
   \<and> (\<forall>i j. i < j \<and> j < length (sortedTasks tasks)
          \<and> planned_start_date (sortedTasks tasks ! i) = None
        \<longrightarrow> planned_start_date (sortedTasks tasks ! j) = None)
   \<and> (\<forall>f \<in> set (detectMissingDependencies tasks).
          planned_start_date (issue_task f) \<noteq> None
          \<and> (\<forall>c \<in> set (potentialDependencies f).
                planned_start_date (candidate_task c) \<noteq> None
                \<and> planned_end_date (candidate_task c) \<noteq> None))"
proof -
  have last: "planned_start_date (sortedTasks tasks ! j) = None"
    if "i < j \<and> j < length (sortedTasks tasks)
          \<and> planned_start_date (sortedTasks tasks ! i) = None" for i j
  proof (rule ccontr)
    assume "planned_start_date (sortedTasks tasks ! j) \<noteq> None"
    then have "planned_start_date (sortedTasks tasks ! i) \<noteq> None"
      using started_before[OF sorted_sortedTasks, of j tasks i] that by simp
    then show False using that by simp
  qed
  have subj: "planned_start_date (issue_task f) \<noteq> None"
    if "f \<in> set (detectMissingDependencies tasks)" for f
    using finding_shape[OF that] by simp
  have cand: "planned_start_date (candidate_task c) \<noteq> None
                \<and> planned_end_date (candidate_task c) \<noteq> None"
    if "f \<in> set (detectMissingDependencies tasks)" "c \<in> set (potentialDependencies f)" for f c
    using candidate_shape[OF that] by auto
  show ?thesis
    using mset_sortedTasks sorted_sortedTasks sortedTasks_stable[of tasks] last subj cand
    by blast
qed

lemma startless_example:
  "detectMissingDependencies [example_task 1 (Some 1) None (Some (jan 8)) [],
         example_task 2 (Some 2) (Some (jan 5)) (Some (jan 9)) [],
         example_task 3 (Some 3) (Some (jan 10)) (Some (jan 12)) []]
   = [\<lparr>issue_task = example_task 3 (Some 3) (Some (jan 10)) (Some (jan 12)) [],
       potentialDependencies =
         [\<lparr>candidate_task = example_task 2 (Some 2) (Some (jan 5)) (Some (jan 9)) [],
           daysBetween = 1\<rparr>],
       issue_type = ''missing_dependency''\<rparr>]"
  by (simp add: detectMissingDependencies_def sortedTasks_def array_sort_def compareTasks_def
      truthy_object_def new_Date_def example_task_def jan_def msPerDay_def ceilDays_def
      hasDependencies_def notDeclared_def)

theorem startless_tasks_sort_last_witness:
  "sortedTasks [example_task 1 (Some 1) None (Some (jan 8)) [],
         example_task 2 (Some 2) (Some (jan 5)) (Some (jan 9)) [],
         example_task 3 (Some 3) (Some (jan 10)) (Some (jan 12)) []]
     = [example_task 2 (Some 2) (Some (jan 5)) (Some (jan 9)) [],
        example_task 3 (Some 3) (Some (jan 10)) (Some (jan 12)) [],
        example_task 1 (Some 1) None (Some (jan 8)) []]
   \<and> (\<exists>f \<in> set (detectMissingDependencies
        [example_task 1 (Some 1) None (Some (jan 8)) [],
         example_task 2 (Some 2) (Some (jan 5)) (Some (jan 9)) [],
         example_task 3 (Some 3) (Some (jan 10)) (Some (jan 12)) []]).
        planned_start_date (issue_task f) \<noteq> None
        \<and> (\<exists>c \<in> set (potentialDependencies f).
              planned_start_date (candidate_task c) \<noteq> None
              \<and> planned_end_date (candidate_task c) \<noteq> None))"
proof -
  let ?ex = "[example_task 1 (Some 1) None (Some (jan 8)) [],
         example_task 2 (Some 2) (Some (jan 5)) (Some (jan 9)) [],
         example_task 3 (Some 3) (Some (jan 10)) (Some (jan 12)) []]"
  have S: "sortedTasks ?ex
     = [example_task 2 (Some 2) (Some (jan 5)) (Some (jan 9)) [],
        example_task 3 (Some 3) (Some (jan 10)) (Some (jan 12)) [],
        example_task 1 (Some 1) None (Some (jan 8)) []]"
    by (simp add: sortedTasks_def array_sort_def compareTasks_def truthy_object_def new_Date_def
      example_task_def jan_def msPerDay_def)
  obtain f where f: "f \<in> set (detectMissingDependencies ?ex)"
    unfolding startless_example by simp
  then obtain c where c: "c \<in> set (potentialDependencies f)"
    unfolding startless_example by auto
  from startless_tasks_sort_last[of ?ex] f c S show ?thesis by blast
qed

text \<open>
  The claim's last part fails: no input makes a task without a planned start a candidate
  predecessor. A task that ends two days before another starts and has no planned start
  of its own sorts after it, and the inferrer reports nothing.
\<close>

theorem startless_candidate_counterexample:
  "detectMissingDependencies
      [example_task 1 (Some 1) None (Some (jan 8)) [],
       example_task 3 (Some 3) (Some (jan 10)) (Some (jan 12)) []] = []
   \<and> \<not> (\<exists>tasks f c. f \<in> set (detectMissingDependencies tasks)
          \<and> c \<in> set (potentialDependencies f)
          \<and> planned_start_date (candidate_task c) = None
          \<and> planned_end_date (candidate_task c) \<noteq> None)"
proof -
  have "detectMissingDependencies
      [example_task 1 (Some 1) None (Some (jan 8)) [],
       example_task 3 (Some 3) (Some (jan 10)) (Some (jan 12)) []] = []"
    by (simp add: detectMissingDependencies_def sortedTasks_def array_sort_def compareTasks_def
      truthy_object_def new_Date_def example_task_def jan_def msPerDay_def ceilDays_def
      hasDependencies_def notDeclared_def)
  moreover have "\<not> (\<exists>tasks f c. f \<in> set (detectMissingDependencies tasks)
          \<and> c \<in> set (potentialDependencies f)
          \<and> planned_start_date (candidate_task c) = None
          \<and> planned_end_date (candidate_task c) \<noteq> None)"
    using candidate_shape by blast
  ultimately show ?thesis by simp
qed

text \<open>
  Claim C6, as amended. The lookback window is the constant \<open>5\<close> of line 210, not a value
  the inferrer is given: among the earlier tasks, those with a planned end that are not
  declared as a dependency are the candidates exactly when the ceiling of (start - end)
  over one day lies between \<open>0\<close> and \<open>5\<close>.
\<close>

theorem lookback_window_is_five:
  "c \<in> set (potentialDependencies_loop currentTask s prevs) \<longleftrightarrow>
     (\<exists>p \<in> set prevs. \<exists>e. planned_end_date p = Some e \<and> notDeclared currentTask p
        \<and> c = \<lparr>candidate_task = p,
               daysBetween = \<lceil>real_of_int (s - e) / real_of_int msPerDay\<rceil>\<rparr>
        \<and> 0 \<le> daysBetween c \<and> daysBetween c \<le> 5)"
proof -
  have "c \<in> set (potentialDependencies_loop currentTask s prevs) \<longleftrightarrow>
     (\<exists>p \<in> set prevs. \<exists>e. planned_end_date p = Some e \<and> notDeclared currentTask p
        \<and> c = \<lparr>candidate_task = p, daysBetween = ceilDays (s - e)\<rparr>
        \<and> 0 \<le> daysBetween c \<and> daysBetween c \<le> 5)"
    unfolding potentialDependencies_loop_iff by fastforce
  then show ?thesis unfolding ceilDays_ceiling .
qed

theorem lookback_window_is_five_witness:
  "\<lparr>candidate_task = example_task 2 (Some 2) (Some (jan 2)) (Some (jan 5)) [], daysBetween = 5\<rparr>
     \<in> set (potentialDependencies_loop
              (example_task 3 (Some 3) (Some (jan 10)) (Some (jan 12)) []) (jan 10)
              [example_task 1 (Some 1) (Some (jan 1)) (Some (jan 4)) [],
               example_task 2 (Some 2) (Some (jan 2)) (Some (jan 5)) []])
   \<and> \<lparr>candidate_task = example_task 1 (Some 1) (Some (jan 1)) (Some (jan 4)) [], daysBetween = 6\<rparr>
     \<notin> set (potentialDependencies_loop
              (example_task 3 (Some 3) (Some (jan 10)) (Some (jan 12)) []) (jan 10)
              [example_task 1 (Some 1) (Some (jan 1)) (Some (jan 4)) [],
               example_task 2 (Some 2) (Some (jan 2)) (Some (jan 5)) []])"
proof -
  have c5: "\<lceil>real_of_int (jan 10 - jan 5) / real_of_int msPerDay\<rceil> = 5"
    and c6: "\<lceil>real_of_int (jan 10 - jan 4) / real_of_int msPerDay\<rceil> = 6"
    unfolding ceilDays_ceiling[symmetric] by (simp_all add: ceilDays_def jan_def msPerDay_def)
  show ?thesis
    unfolding lookback_window_is_five
    using c5 c6 by (auto simp: example_task_def notDeclared_def)
qed

text \<open>
  No window other than \<open>5\<close> can be configured: a predecessor that ends 7 days before the
  task starts would be inside a window of 10 days, and is not reported.
\<close>

theorem lookback_window_counterexample:
  "detectMissingDependencies
      [example_task 1 (Some 1) (Some (jan 1)) (Some (jan 3)) [],
       example_task 3 (Some 3) (Some (jan 10)) (Some (jan 12)) []] = []
   \<and> ceilDays (jan 10 - jan 3) = 7 \<and> (0::int) \<le> 7 \<and> (7::int) \<le> 10"
  by (simp add: detectMissingDependencies_def sortedTasks_def array_sort_def compareTasks_def
      truthy_object_def new_Date_def example_task_def jan_def msPerDay_def ceilDays_def
      hasDependencies_def notDeclared_def)

section \<open>Properties of the dependency graph builder\<close>

lemma init_snd:
  "snd (foldl init_step st tasks) k = (if k \<in> task_id ` set tasks then Some [] else snd st k)"
  by (induction tasks arbitrary: st) (auto simp: init_step_def)

lemma init_fst_other:
  "k \<notin> task_id ` set tasks \<Longrightarrow> fst (foldl init_step st tasks) k = fst st k"
  by (induction tasks arbitrary: st) (auto simp: init_step_def)

lemma init_fst_Some:
  "fst (foldl init_step st tasks) k = Some t \<Longrightarrow>
     (t \<in> set tasks \<and> task_id t = k) \<or> fst st k = Some t"
proof (induction tasks arbitrary: st)
  case Nil
  then show ?case by simp
next
  case (Cons u tasks)
  from Cons.IH[of "init_step st u"] Cons.prems
  have "(t \<in> set tasks \<and> task_id t = k) \<or> fst (init_step st u) k = Some t" by simp
  then show ?case by (auto simp: init_step_def split: if_splits)
qed

lemma taskMap_of_None: "k \<notin> task_id ` set tasks \<Longrightarrow> taskMap_of tasks k = None"
  by (simp add: taskMap_of_def init_fst_other)

lemma taskMap_of_Some: "taskMap_of tasks k = Some t \<Longrightarrow> t \<in> set tasks \<and> task_id t = k"
  unfolding taskMap_of_def using init_fst_Some[of "(Map.empty, Map.empty)" tasks k t] by simp

lemma graph_push_at:
  "graph_push tid g d k =
     (case g k of None \<Rightarrow> None
      | Some ids \<Rightarrow> Some (ids @ (if d = k then [tid] else [])))"
  by (auto simp: graph_push_def split: option.splits)

lemma graph_push_fold:
  "foldl (graph_push tid) g ds k =
     (case g k of None \<Rightarrow> None | Some ids \<Rightarrow> Some (ids @ replicate (count_list ds k) tid))"
proof (induction ds arbitrary: g)
  case Nil
  then show ?case by (simp split: option.splits)
next
  case (Cons d ds)
  have "foldl (graph_push tid) g (d # ds) k = foldl (graph_push tid) (graph_push tid g d) ds k"
    by simp
  also have "\<dots> = (case graph_push tid g d k of None \<Rightarrow> None
      | Some ids \<Rightarrow> Some (ids @ replicate (count_list ds k) tid))"
    by (rule Cons.IH)
  also have "\<dots> = (case g k of None \<Rightarrow> None
      | Some ids \<Rightarrow> Some (ids @ replicate (count_list (d # ds) k) tid))"
    by (simp add: graph_push_at replicate_append_same split: option.splits)
  finally show ?case .
qed

lemma fill_step_at:
  "fill_step g t k =
     (case g k of None \<Rightarrow> None
      | Some ids \<Rightarrow> Some (ids @ replicate (count_list (declared t) k) (task_id t)))"
proof (cases "depends_on t")
  case None
  then show ?thesis by (simp add: fill_step_def declared_def split: option.splits)
next
  case (Some ds)
  show ?thesis
  proof (cases "ds = []")
    case True
    then show ?thesis using Some by (simp add: fill_step_def declared_def split: option.splits)
  next
    case False
    then have "fill_step g t = foldl (graph_push (task_id t)) g ds"
      using Some by (simp add: fill_step_def)
    moreover have "declared t = ds" using Some by (simp add: declared_def)
    ultimately show ?thesis by (simp add: graph_push_fold split: option.splits)
  qed
qed

lemma fill_fold:
  "foldl fill_step g tasks k =
     (case g k of None \<Rightarrow> None
      | Some ids \<Rightarrow> Some (ids @ concat (map (\<lambda>t. replicate (count_list (declared t) k) (task_id t)) tasks)))"
proof (induction tasks arbitrary: g)
  case Nil
  then show ?case by (simp split: option.splits)
next
  case (Cons t tasks)
  have "foldl fill_step g (t # tasks) k = foldl fill_step (fill_step g t) tasks k" by simp
  also have "\<dots> = (case fill_step g t k of None \<Rightarrow> None
      | Some ids \<Rightarrow> Some (ids @ concat (map (\<lambda>t. replicate (count_list (declared t) k) (task_id t)) tasks)))"
    by (rule Cons.IH)
  also have "\<dots> = (case g k of None \<Rightarrow> None
      | Some ids \<Rightarrow> Some (ids @ concat (map (\<lambda>t. replicate (count_list (declared t) k) (task_id t)) (t # tasks))))"
    by (simp add: fill_step_at split: option.splits)
  finally show ?case .
qed

lemma dependencyGraph_of_at:
  "dependencyGraph_of tasks k =
     (if k \<in> task_id ` set tasks
      then Some (concat (map (\<lambda>t. replicate (count_list (declared t) k) (task_id t)) tasks))
      else None)"
  unfolding dependencyGraph_of_def by (simp add: fill_fold init_snd)

lemma dependencyGraph_of_range:
  assumes "dependencyGraph_of tasks k = Some ids"
  shows "k \<in> task_id ` set tasks \<and> set ids \<subseteq> task_id ` set tasks"
  using assms unfolding dependencyGraph_of_at by (auto split: if_splits)

lemma without_dependency_simps:
  "task_id (without_dependency d t) = task_id t"
  "declared (without_dependency d t) = filter (\<lambda>x. x \<noteq> d) (declared t)"
  by (cases "depends_on t"; simp add: without_dependency_def declared_def)+

lemma count_list_filter_other: "k \<noteq> d \<Longrightarrow> count_list (filter (\<lambda>x. x \<noteq> d) ds) k = count_list ds k"
  by (induction ds) auto

lemma dependencyGraph_of_without:
  assumes "d \<notin> task_id ` set tasks"
  shows "dependencyGraph_of (map (without_dependency d) tasks) = dependencyGraph_of tasks"
proof
  fix k
  have ids: "task_id ` set (map (without_dependency d) tasks) = task_id ` set tasks"
    by (auto simp: without_dependency_simps image_iff)
  show "dependencyGraph_of (map (without_dependency d) tasks) k = dependencyGraph_of tasks k"
  proof (cases "k \<in> task_id ` set tasks")
    case True
    then have "k \<noteq> d" using assms by auto
    then show ?thesis
      unfolding dependencyGraph_of_at ids
      by (simp add: without_dependency_simps count_list_filter_other comp_def)
  next
    case False
    then show ?thesis unfolding dependencyGraph_of_at ids by simp
  qed
qed

lemma dependencies_loop_append:
  "dependencies_loop tm t s (ds1 @ ds2) = dependencies_loop tm t s ds1 @ dependencies_loop tm t s ds2"
  by (induction ds1) (auto simp: Let_def split: option.splits)

lemma dependencies_loop_skip:
  assumes "tm d = None \<or> (\<exists>dep. tm d = Some dep \<and> planned_end_date dep = None)"
  shows "dependencies_loop tm t s (ds1 @ d # ds2)
     = dependencies_loop tm t s ds1 @ dependencies_loop tm t s ds2"
  using assms by (auto simp: dependencies_loop_append truthy_object_def)

lemma detectScheduleConflicts_append:
  "detectScheduleConflicts (ts1 @ ts2) tm
     = detectScheduleConflicts ts1 tm @ detectScheduleConflicts ts2 tm"
  by (simp add: detectScheduleConflicts_def)

lemma detectScheduleConflicts_skip:
  assumes "depends_on t = Some (ds1 @ d # ds2)" "planned_start_date t = Some s"
    and "tm d = None \<or> (\<exists>dep. tm d = Some dep \<and> planned_end_date dep = None)"
  shows "detectScheduleConflicts (ts1 @ t # ts2) tm
     = detectScheduleConflicts ts1 tm @ dependencies_loop tm t s ds1
       @ dependencies_loop tm t s ds2 @ detectScheduleConflicts ts2 tm"
proof -
  have "task_conflicts tm t = dependencies_loop tm t s (ds1 @ d # ds2)"
    using assms(1,2) by (simp add: task_conflicts_def truthy_object_def new_Date_def)
  then have "task_conflicts tm t = dependencies_loop tm t s ds1 @ dependencies_loop tm t s ds2"
    using dependencies_loop_skip[where tm = tm and d = d, OF assms(3)] by simp
  then show ?thesis by (simp add: detectScheduleConflicts_def)
qed

lemma conflict_resolved:
  assumes "c \<in> set (detectScheduleConflicts tasks tm)"
  shows "\<exists>d \<in> set (declared (conflict_task c)).
           tm d = Some (dependency c) \<and> planned_end_date (dependency c) \<noteq> None"
  using assms unfolding detectScheduleConflicts_iff by (auto simp: declared_def)

text \<open>
  Claim C7. Let \<open>d\<close> be an identity that no task of the collection has. In the dependency
  graph \<open>d\<close> is no key and occurs in no adjacency list, and the graph is the one the
  builder produces when \<open>d\<close> is removed from every \<^verbatim>\<open>depends_on\<close>; the task lookup does
  not resolve \<open>d\<close>. In the conflict detector a declared identity that the lookup does not
  resolve, or resolves to a task without a planned end, contributes nothing: the result is
  what the tasks before, the dependencies before and after it, and the tasks after
  contribute. No conflict is ever flagged but for a declared identity that resolves to a
  task with a planned end. Neither function has a failing branch.
\<close>

theorem dangling_references_tolerated:
  assumes "d \<notin> task_id ` set tasks"
  shows "dependencyGraph_of tasks d = None
       \<and> (\<forall>k ids. dependencyGraph_of tasks k = Some ids \<longrightarrow> d \<notin> set ids)
       \<and> dependencyGraph_of (map (without_dependency d) tasks) = dependencyGraph_of tasks
       \<and> taskMap_of tasks d = None
       \<and> (\<forall>taskMap t s ds1 ds2 d' ts1 ts2.
             depends_on t = Some (ds1 @ d' # ds2) \<and> planned_start_date t = Some s
             \<and> (taskMap d' = None \<or> (\<exists>dep. taskMap d' = Some dep \<and> planned_end_date dep = None))
             \<longrightarrow> detectScheduleConflicts (ts1 @ t # ts2) taskMap
                 = detectScheduleConflicts ts1 taskMap @ dependencies_loop taskMap t s ds1
                   @ dependencies_loop taskMap t s ds2 @ detectScheduleConflicts ts2 taskMap)
       \<and> (\<forall>taskMap. \<forall>c \<in> set (detectScheduleConflicts tasks taskMap).
             \<exists>d' \<in> set (declared (conflict_task c)).
               taskMap d' = Some (dependency c) \<and> planned_end_date (dependency c) \<noteq> None)"
proof -
  have key: "dependencyGraph_of tasks d = None"
    using assms by (simp add: dependencyGraph_of_at)
  have adj: "\<forall>k ids. dependencyGraph_of tasks k = Some ids \<longrightarrow> d \<notin> set ids"
    using dependencyGraph_of_range assms by blast
  have same: "dependencyGraph_of (map (without_dependency d) tasks) = dependencyGraph_of tasks"
    using assms by (rule dependencyGraph_of_without)
  have tm: "taskMap_of tasks d = None"
    using assms by (rule taskMap_of_None)
  have skip: "\<forall>taskMap t s ds1 ds2 d' ts1 ts2.
             depends_on t = Some (ds1 @ d' # ds2) \<and> planned_start_date t = Some s
             \<and> (taskMap d' = None \<or> (\<exists>dep. taskMap d' = Some dep \<and> planned_end_date dep = None))
             \<longrightarrow> detectScheduleConflicts (ts1 @ t # ts2) taskMap
                 = detectScheduleConflicts ts1 taskMap @ dependencies_loop taskMap t s ds1
                   @ dependencies_loop taskMap t s ds2 @ detectScheduleConflicts ts2 taskMap"
    using detectScheduleConflicts_skip by blast
  have res: "\<forall>taskMap. \<forall>c \<in> set (detectScheduleConflicts tasks taskMap).
             \<exists>d' \<in> set (declared (conflict_task c)).
               taskMap d' = Some (dependency c) \<and> planned_end_date (dependency c) \<noteq> None"
    using conflict_resolved by blast
  show ?thesis using key adj same tm skip res by blast
qed

theorem dangling_references_tolerated_witness:
  "dependencyGraph_of
     [example_task 1 (Some 1) (Some (jan 1)) (Some (jan 15)) [],
      example_task 2 (Some 2) (Some (jan 10)) (Some (jan 18)) [99, 1]] 99 = None
   \<and> dependencyGraph_of
     [example_task 1 (Some 1) (Some (jan 1)) (Some (jan 15)) [],
      example_task 2 (Some 2) (Some (jan 10)) (Some (jan 18)) [99, 1]] 1 = Some [2]
   \<and> detectScheduleConflicts
     [example_task 1 (Some 1) (Some (jan 1)) (Some (jan 15)) [],
      example_task 2 (Some 2) (Some (jan 10)) (Some (jan 18)) [99, 1]]
     (taskMap_of [example_task 1 (Some 1) (Some (jan 1)) (Some (jan 15)) [],
      example_task 2 (Some 2) (Some (jan 10)) (Some (jan 18)) [99, 1]])
   = [\<lparr>conflict_task = example_task 2 (Some 2) (Some (jan 10)) (Some (jan 18)) [99, 1],
       dependency = example_task 1 (Some 1) (Some (jan 1)) (Some (jan 15)) [],
       daysConflict = 5\<rparr>]"
proof -
  let ?d = "example_task 1 (Some 1) (Some (jan 1)) (Some (jan 15)) []"
  let ?t = "example_task 2 (Some 2) (Some (jan 10)) (Some (jan 18)) [99, 1]"
  let ?tm = "taskMap_of [?d, ?t]"
  have dangling: "(99::int) \<notin> task_id ` set [?d, ?t]" by (simp add: example_task_def)
  note inst = dangling_references_tolerated[OF dangling]
  have g99: "dependencyGraph_of [?d, ?t] 99 = None" using inst by blast
  have g1: "dependencyGraph_of [?d, ?t] 1 = Some [2]"
    by (simp add: dependencyGraph_of_def init_step_def fill_step_def graph_push_def example_task_def)
  have tm99: "?tm 99 = None" using inst by blast
  have tm1: "?tm 1 = Some ?d" by (simp add: taskMap_of_def init_step_def example_task_def)
  have deps: "depends_on ?t = Some ([] @ 99 # [1])" "planned_start_date ?t = Some (jan 10)"
    by (simp_all add: example_task_def)
  from inst have "depends_on ?t = Some ([] @ 99 # [1]) \<and> planned_start_date ?t = Some (jan 10)
             \<and> (?tm 99 = None \<or> (\<exists>dep. ?tm 99 = Some dep \<and> planned_end_date dep = None))
             \<longrightarrow> detectScheduleConflicts ([?d] @ ?t # []) ?tm
                 = detectScheduleConflicts [?d] ?tm @ dependencies_loop ?tm ?t (jan 10) []
                   @ dependencies_loop ?tm ?t (jan 10) [1] @ detectScheduleConflicts [] ?tm"
    by blast
  then have "detectScheduleConflicts ([?d] @ ?t # []) ?tm
                 = detectScheduleConflicts [?d] ?tm @ dependencies_loop ?tm ?t (jan 10) []
                   @ dependencies_loop ?tm ?t (jan 10) [1] @ detectScheduleConflicts [] ?tm"
    using deps tm99 by blast
  moreover have "detectScheduleConflicts [?d] ?tm = []"
    by (simp add: detectScheduleConflicts_def task_conflicts_def example_task_def)
  moreover have "dependencies_loop ?tm ?t (jan 10) [1]
      = [\<lparr>conflict_task = ?t, dependency = ?d, daysConflict = 5\<rparr>]"
    by (simp add: tm1 truthy_object_def new_Date_def)
       (simp add: example_task_def jan_def msPerDay_def ceilDays_def)
  ultimately have "detectScheduleConflicts [?d, ?t] ?tm
      = [\<lparr>conflict_task = ?t, dependency = ?d, daysConflict = 5\<rparr>]"
    by (simp add: detectScheduleConflicts_def)
  then show ?thesis using g99 g1 by simp
qed

section \<open>Properties of the coordination report\<close>

lemma status_partition:
  "length tasks = count_status ''completed'' tasks + count_status ''in_progress'' tasks
     + count_status ''planned'' tasks + count_status ''delayed'' tasks
     + length (filter (\<lambda>t. status t \<notin> {Some ''planned'', Some ''in_progress'',
                                        Some ''completed'', Some ''delayed''}) tasks)"
  by (induction tasks) (auto simp: count_status_def)

lemma status_closed:
  assumes "\<forall>t \<in> set tasks. status t \<in> {Some ''planned'', Some ''in_progress'',
                                        Some ''completed'', Some ''delayed''}"
  shows "filter (\<lambda>t. status t \<notin> {Some ''planned'', Some ''in_progress'',
                                        Some ''completed'', Some ''delayed''}) tasks = []"
  using assms by (auto simp: filter_empty_conv)

lemma report_fields:
  assumes "generateCoordinationReport env db projectId = Some r"
    and "project_tasks db projectId = Rows tasks"
  shows "totalTasks r = length tasks \<and> completedTasks r = count_status ''completed'' tasks
     \<and> inProgressTasks r = count_status ''in_progress'' tasks
     \<and> plannedTasks r = count_status ''planned'' tasks
     \<and> delayedTasks r = count_status ''delayed'' tasks"
  using assms
  by (auto simp: generateCoordinationReport_def
      split: query_result.splits list.splits sum.splits)

text \<open>
  Claim C8. In a report that the assembler returns for the tasks of a project,
  \<open>totalTasks\<close> is the sum of the four status counts plus the number of tasks whose status
  is none of \<^verbatim>\<open>planned\<close>, \<^verbatim>\<open>in_progress\<close>, \<^verbatim>\<open>completed\<close>, \<^verbatim>\<open>delayed\<close> (a \<^verbatim>\<open>null\<close>
  status included); so it is at least the sum of the four, and equal to it when every
  status is one of the four.
\<close>

theorem report_total_is_sum_of_counts:
  assumes "generateCoordinationReport env db projectId = Some r"
    and "project_tasks db projectId = Rows tasks"
  shows "totalTasks r = completedTasks r + inProgressTasks r + plannedTasks r + delayedTasks r
           + length (filter (\<lambda>t. status t \<notin> {Some ''planned'', Some ''in_progress'',
                                        Some ''completed'', Some ''delayed''}) tasks)
       \<and> totalTasks r \<ge> completedTasks r + inProgressTasks r + plannedTasks r + delayedTasks r
       \<and> ((\<forall>t \<in> set tasks. status t \<in> {Some ''planned'', Some ''in_progress'',
                                        Some ''completed'', Some ''delayed''})
          \<longrightarrow> totalTasks r
              = completedTasks r + inProgressTasks r + plannedTasks r + delayedTasks r)"
proof -
  note f = report_fields[OF assms]
  have sum: "totalTasks r = completedTasks r + inProgressTasks r + plannedTasks r + delayedTasks r
           + length (filter (\<lambda>t. status t \<notin> {Some ''planned'', Some ''in_progress'',
                                        Some ''completed'', Some ''delayed''}) tasks)"
    using f status_partition[of tasks] by simp
  then have ge: "totalTasks r \<ge> completedTasks r + inProgressTasks r + plannedTasks r + delayedTasks r"
    by simp
  have closed: "totalTasks r
              = completedTasks r + inProgressTasks r + plannedTasks r + delayedTasks r"
    if "\<forall>t \<in> set tasks. status t \<in> {Some ''planned'', Some ''in_progress'',
                                        Some ''completed'', Some ''delayed''}"
    using sum status_closed[OF that] by simp
  show ?thesis using sum ge closed by blast
qed

theorem report_total_is_sum_of_counts_witness:
  "(\<exists>r. generateCoordinationReport example_env (example_db
         [example_task 1 (Some 1) (Some (jan 1)) (Some (jan 3)) [],
          (example_task 2 None None None [])\<lparr>status := Some ''blocked''\<rparr>,
          (example_task 3 None None None [])\<lparr>status := Some ''completed''\<rparr>]) 1 = Some r
       \<and> totalTasks r
           = completedTasks r + inProgressTasks r + plannedTasks r + delayedTasks r + 1)
   \<and> (\<exists>r. generateCoordinationReport example_env (example_db
         [example_task 1 (Some 1) (Some (jan 1)) (Some (jan 3)) [],
          (example_task 3 None None None [])\<lparr>status := Some ''completed''\<rparr>]) 1 = Some r
       \<and> totalTasks r
           = completedTasks r + inProgressTasks r + plannedTasks r + delayedTasks r)"
proof -
  let ?ex = "[example_task 1 (Some 1) (Some (jan 1)) (Some (jan 3)) [],
          (example_task 2 None None None [])\<lparr>status := Some ''blocked''\<rparr>,
          (example_task 3 None None None [])\<lparr>status := Some ''completed''\<rparr>]"
  let ?ex' = "[example_task 1 (Some 1) (Some (jan 1)) (Some (jan 3)) [],
          (example_task 3 None None None [])\<lparr>status := Some ''completed''\<rparr>]"
  have "generateCoordinationReport example_env (example_db ?ex) 1 \<noteq> None"
    by (simp add: generateCoordinationReport_def example_db_def example_env_def example_task_def
        report_group_step_def sans_corps_de_metier_def Object_prototype_keys_def display_of_def)
  then obtain r where r: "generateCoordinationReport example_env (example_db ?ex) 1 = Some r"
    by blast
  have rows: "project_tasks (example_db ?ex) 1 = Rows ?ex" by (simp add: example_db_def)
  have out: "length (filter (\<lambda>t. status t \<notin> {Some ''planned'', Some ''in_progress'',
                                        Some ''completed'', Some ''delayed''}) ?ex) = 1"
    by (simp add: example_task_def)
  from report_total_is_sum_of_counts[OF r rows] out
  have 1: "totalTasks r
           = completedTasks r + inProgressTasks r + plannedTasks r + delayedTasks r + 1"
    by simp
  have "generateCoordinationReport example_env (example_db ?ex') 1 \<noteq> None"
    by (simp add: generateCoordinationReport_def example_db_def example_env_def example_task_def
        report_group_step_def sans_corps_de_metier_def Object_prototype_keys_def display_of_def)
  then obtain r' where r': "generateCoordinationReport example_env (example_db ?ex') 1 = Some r'"
    by blast
  have rows': "project_tasks (example_db ?ex') 1 = Rows ?ex'" by (simp add: example_db_def)
  have closed: "\<forall>t \<in> set ?ex'. status t \<in> {Some ''planned'', Some ''in_progress'',
                                        Some ''completed'', Some ''delayed''}"
    by (simp add: example_task_def)
  from report_total_is_sum_of_counts[OF r' rows'] closed
  have 2: "totalTasks r'
           = completedTasks r' + inProgressTasks r' + plannedTasks r' + delayedTasks r'"
    by blast
  show ?thesis using r 1 r' 2 by blast
qed

lemma report_group_step_tradeName:
  "report_group_step env g t =
     (case map_of g (tradeName t) of
        Some ds \<Rightarrow> Inr (AList.update (tradeName t) (ds @ [display_of env t]) g)
      | None \<Rightarrow>
          if tradeName t \<in> set Object_prototype_keys then Inl TypeError
          else Inr (AList.update (tradeName t) [display_of env t] g))"
  unfolding report_group_step_def Let_def tradeName_def by (rule refl)

lemma report_group_throws_iff:
  assumes "\<forall>k \<in> fst ` set g. k \<notin> set Object_prototype_keys"
  shows "(\<exists>e. report_group env g tasks = Inl e)
     \<longleftrightarrow> (\<exists>t \<in> set tasks. tradeName t \<in> set Object_prototype_keys)"
  using assms
proof (induction tasks arbitrary: g)
  case Nil
  then show ?case by simp
next
  case (Cons t tasks)
  show ?case
  proof (cases "tradeName t \<in> set Object_prototype_keys")
    case True
    then have "tradeName t \<notin> fst ` set g" using Cons.prems by blast
    then have "map_of g (tradeName t) = None" by (simp add: map_of_eq_None_iff)
    then have "report_group_step env g t = Inl TypeError"
      using True by (simp add: report_group_step_tradeName)
    then show ?thesis using True by simp
  next
    case False
    then obtain g' where g': "report_group_step env g t = Inr g'"
      "fst ` set g' = insert (tradeName t) (fst ` set g)"
      by (cases "map_of g (tradeName t)")
         (auto simp: report_group_step_tradeName dom_update)
    have "\<forall>k \<in> fst ` set g'. k \<notin> set Object_prototype_keys"
      using g'(2) False Cons.prems by auto
    from Cons.IH[OF this] show ?thesis using g'(1) False by simp
  qed
qed

lemma report_null_iff:
  "generateCoordinationReport env db projectId = None \<longleftrightarrow>
     (project_names db projectId = Rejected \<or> project_names db projectId = Rows []
      \<or> project_tasks db projectId = Rejected
      \<or> (\<exists>tasks. project_tasks db projectId = Rows tasks
            \<and> (\<exists>t \<in> set tasks. tradeName t \<in> set Object_prototype_keys)))"
proof -
  have thr: "(\<exists>e. report_group env [] tasks = Inl e)
      \<longleftrightarrow> (\<exists>t \<in> set tasks. tradeName t \<in> set Object_prototype_keys)" for tasks
    by (rule report_group_throws_iff) simp
  show ?thesis
  proof (cases "project_names db projectId")
    case Rejected
    then show ?thesis by (simp add: generateCoordinationReport_def)
  next
    case (Rows ps)
    show ?thesis
    proof (cases ps)
      case Nil
      then show ?thesis using Rows by (simp add: generateCoordinationReport_def)
    next
      case (Cons pname rest)
      show ?thesis
      proof (cases "project_tasks db projectId")
        case Rejected
        then show ?thesis using Rows Cons by (simp add: generateCoordinationReport_def)
      next
        case tr: (Rows tasks)
        show ?thesis
        proof (cases "report_group env [] tasks")
          case (Inl e)
          then have "\<exists>t \<in> set tasks. tradeName t \<in> set Object_prototype_keys"
            using thr[of tasks] by blast
          then show ?thesis using Rows Cons tr Inl by (simp add: generateCoordinationReport_def)
        next
          case (Inr g)
          then have "\<not> (\<exists>t \<in> set tasks. tradeName t \<in> set Object_prototype_keys)"
            using thr[of tasks] by auto
          then show ?thesis using Rows Cons tr Inr by (simp add: generateCoordinationReport_def)
        qed
      qed
    qed
  qed
qed

text \<open>
  Claim C9, as amended. The assembler returns \<^verbatim>\<open>null\<close> (here \<open>None\<close>) exactly when the
  project query finds no row, when either query rejects, and when grouping the tasks
  throws, which it does for a trade named like a property of \<^verbatim>\<open>Object.prototype\<close>; the
  whole body is inside the \<^verbatim>\<open>try\<close>, so nothing is raised to the caller. The \<^verbatim>\<open>null\<close> for
  a missing project is the \<^verbatim>\<open>null\<close> for an error, so the result does not tell the two
  apart. For a project that is found and has no task it returns a report with no
  grouping and all five counts \<open>0\<close>.
\<close>

theorem report_absent_not_raised:
  "(generateCoordinationReport env db projectId = None \<longleftrightarrow>
      (project_names db projectId = Rejected \<or> project_names db projectId = Rows []
       \<or> project_tasks db projectId = Rejected
       \<or> (\<exists>tasks. project_tasks db projectId = Rows tasks
             \<and> (\<exists>t \<in> set tasks. tradeName t \<in> set Object_prototype_keys))))
   \<and> (project_names db projectId = Rows [] \<longrightarrow> generateCoordinationReport env db projectId = None)
   \<and> (project_names db projectId = Rejected \<longrightarrow> generateCoordinationReport env db projectId = None)
   \<and> (project_tasks db projectId = Rejected \<longrightarrow> generateCoordinationReport env db projectId = None)
   \<and> ((\<exists>tasks e. project_tasks db projectId = Rows tasks \<and> report_group env [] tasks = Inl e)
        \<longrightarrow> generateCoordinationReport env db projectId = None)
   \<and> (\<forall>pname rest. project_names db projectId = Rows (pname # rest)
          \<and> project_tasks db projectId = Rows []
        \<longrightarrow> generateCoordinationReport env db projectId
            = Some \<lparr>projectName = pname, generatedDate = today env, report_tasksByTrade = [],
                    totalTasks = 0, completedTasks = 0, inProgressTasks = 0,
                    plannedTasks = 0, delayedTasks = 0\<rparr>)
   \<and> (\<forall>env' db' projectId'.
         project_names db projectId = Rows []
         \<and> (project_names db' projectId' = Rejected \<or> project_tasks db' projectId' = Rejected
              \<or> (\<exists>tasks e. project_tasks db' projectId' = Rows tasks
                    \<and> report_group env' [] tasks = Inl e))
        \<longrightarrow> generateCoordinationReport env db projectId
            = generateCoordinationReport env' db' projectId')"
proof -
  have a: "generateCoordinationReport env db projectId = None"
    if "project_names db projectId = Rows []"
    using that by (simp add: generateCoordinationReport_def)
  have b: "generateCoordinationReport env db projectId = None"
    if "project_names db projectId = Rejected"
    using that by (simp add: generateCoordinationReport_def)
  have c: "generateCoordinationReport env db projectId = None"
    if "project_tasks db projectId = Rejected"
    using that by (simp add: generateCoordinationReport_def split: query_result.splits list.splits)
  have d: "generateCoordinationReport env db projectId = None"
    if "\<exists>tasks e. project_tasks db projectId = Rows tasks \<and> report_group env [] tasks = Inl e"
    using that by (auto simp: generateCoordinationReport_def split: query_result.splits list.splits)
  have e: "generateCoordinationReport env db projectId
            = Some \<lparr>projectName = pname, generatedDate = today env, report_tasksByTrade = [],
                    totalTasks = 0, completedTasks = 0, inProgressTasks = 0,
                    plannedTasks = 0, delayedTasks = 0\<rparr>"
    if "project_names db projectId = Rows (pname # rest) \<and> project_tasks db projectId = Rows []"
    for pname rest
    using that by (simp add: generateCoordinationReport_def count_status_def)
  have same: "generateCoordinationReport env db projectId
            = generateCoordinationReport env' db' projectId'"
    if h: "project_names db projectId = Rows []
         \<and> (project_names db' projectId' = Rejected \<or> project_tasks db' projectId' = Rejected
              \<or> (\<exists>tasks e. project_tasks db' projectId' = Rows tasks
                    \<and> report_group env' [] tasks = Inl e))"
    for env' db' projectId'
  proof -
    have "generateCoordinationReport env' db' projectId' = None"
      using h
      by (auto simp: generateCoordinationReport_def split: query_result.splits list.splits)
    then show ?thesis using a h by simp
  qed
  show ?thesis
    apply (intro conjI)
          apply (rule report_null_iff)
         apply (simp add: a)
        apply (simp add: b)
       apply (simp add: c)
      apply (use d in blast)
     apply (use e in blast)
    apply (use same in blast)
    done
qed



theorem report_absent_not_raised_witness:
  "generateCoordinationReport example_env (example_db []) 2 = None
   \<and> generateCoordinationReport example_env (example_db []) 1
       = Some \<lparr>projectName = ''Chantier'', generatedDate = ''today'', report_tasksByTrade = [],
               totalTasks = 0, completedTasks = 0, inProgressTasks = 0,
               plannedTasks = 0, delayedTasks = 0\<rparr>
   \<and> generateCoordinationReport example_env
        (example_db [(example_task 1 (Some 1) None None [])\<lparr>trade_name := Some ''toString''\<rparr>]) 1
       = None
   \<and> generateCoordinationReport example_env
        ((example_db [])\<lparr>project_names := (\<lambda>i. Rejected)\<rparr>) 1 = None
   \<and> generateCoordinationReport example_env
        ((example_db [])\<lparr>project_tasks := (\<lambda>i. Rejected)\<rparr>) 1 = None"
proof -
  have n2: "project_names (example_db []) 2 = Rows []" by (simp add: example_db_def)
  have n1: "project_names (example_db []) 1 = Rows (''Chantier'' # [])
      \<and> project_tasks (example_db []) 1 = Rows []" by (simp add: example_db_def)
  let ?bad = "[(example_task 1 (Some 1) None None [])\<lparr>trade_name := Some ''toString''\<rparr>]"
  have bad: "\<exists>tasks e. project_tasks (example_db ?bad) 1 = Rows tasks
      \<and> report_group example_env [] tasks = Inl e"
    by (simp add: example_db_def example_task_def report_group_step_def Object_prototype_keys_def)
  have today: "today example_env = ''today''" by (simp add: example_env_def)
  let ?rejp = "(example_db [])\<lparr>project_names := (\<lambda>i. Rejected)\<rparr>"
  let ?rejt = "(example_db [])\<lparr>project_tasks := (\<lambda>i. Rejected)\<rparr>"
  have rejp: "project_names ?rejp 1 = Rejected" by simp
  have rejt: "project_tasks ?rejt 1 = Rejected" by simp
  from report_absent_not_raised[where db = "example_db []" and projectId = 2 and env = example_env] n2
  have 1: "generateCoordinationReport example_env (example_db []) 2 = None" by blast
  from report_absent_not_raised[where db = "example_db []" and projectId = 1 and env = example_env] n1
  have 2: "generateCoordinationReport example_env (example_db []) 1
       = Some \<lparr>projectName = ''Chantier'', generatedDate = today example_env,
               report_tasksByTrade = [],
               totalTasks = 0, completedTasks = 0, inProgressTasks = 0,
               plannedTasks = 0, delayedTasks = 0\<rparr>" by blast
  from report_absent_not_raised[where db = "example_db ?bad" and projectId = 1 and env = example_env] bad
  have 3: "generateCoordinationReport example_env (example_db ?bad) 1 = None" by blast
  from report_absent_not_raised[where db = ?rejp and projectId = 1 and env = example_env] rejp
  have 4: "generateCoordinationReport example_env ?rejp 1 = None" by blast
  from report_absent_not_raised[where db = ?rejt and projectId = 1 and env = example_env] rejt
  have 5: "generateCoordinationReport example_env ?rejt 1 = None" by blast
  show ?thesis using 1 2 3 4 5 today by simp
qed

text \<open>
  The result does not tell a missing project from an error: the project query that finds
  no row and the project query that is rejected both end in the same \<^verbatim>\<open>null\<close>.
\<close>

theorem report_null_same_for_missing_and_error_counterexample:
  "project_names (example_db []) 2 = Rows []
   \<and> project_names ((example_db [])\<lparr>project_names := (\<lambda>i. Rejected)\<rparr>) 1 = Rejected
   \<and> generateCoordinationReport example_env (example_db []) 2
       = generateCoordinationReport example_env
           ((example_db [])\<lparr>project_names := (\<lambda>i. Rejected)\<rparr>) 1"
  by (simp add: generateCoordinationReport_def example_db_def)

section \<open>Properties of the detectors on the heap\<close>

lemma array_at_append_old: "r < length h \<Longrightarrow> array_at (h @ xs) r = array_at h r"
  by (simp add: array_at_def nth_append)

lemma array_at_new: "array_at (h @ [xs]) (length h) = xs"
  by (simp add: array_at_def)

lemma array_at_update:
  "r < length h \<Longrightarrow> array_at (h[r := v]) r' = (if r' = r then v else array_at h r')"
  by (simp add: array_at_def)

lemma update_absent: "map_of m k = None \<Longrightarrow> AList.update k v m = m @ [(k, v)]"
  by (induction m) (auto split: if_splits)

lemma update_appended: "map_of m k = None \<Longrightarrow> AList.update k v (m @ [(k, w)]) = m @ [(k, v)]"
  by (induction m) (auto split: if_splits)

lemma map_of_deref: "map_of (deref h m) k = map_option (array_at h) (map_of m k)"
  by (induction m) (auto simp: deref_def)

lemma deref_keys: "map fst (deref h m) = map fst m"
  by (simp add: deref_def comp_def)

lemma deref_append_old:
  "\<forall>r \<in> set (map snd m). r < length h \<Longrightarrow> deref (h @ xs) m = deref h m"
  by (induction m) (auto simp: deref_def array_at_append_old)

lemma deref_update:
  assumes "distinct (map snd m)" "map_of m k = Some r" "r < length h"
  shows "deref (h[r := v]) m = AList.update k v (deref h m)"
  using assms
proof (induction m)
  case Nil
  then show ?case by simp
next
  case (Cons p m)
  obtain k' r' where p: "p = (k', r')" by (cases p)
  show ?case
  proof (cases "k' = k")
    case True
    then have r': "r' = r" using Cons.prems p by simp
    have "r \<notin> set (map snd m)" using Cons.prems p r' by simp
    then have "deref (h[r := v]) m = deref h m"
      by (induction m) (auto simp: deref_def array_at_update Cons.prems(3))
    then show ?thesis using True r' p Cons.prems(3)
      by (simp add: deref_def array_at_update)
  next
    case False
    then have m: "map_of m k = Some r" using Cons.prems p by simp
    then have "r \<in> set (map snd m)" by (metis map_of_SomeD image_eqI snd_conv set_map)
    then have "r' \<noteq> r" using Cons.prems(1) p by auto
    moreover have "deref (h[r := v]) m = AList.update k v (deref h m)"
      using Cons.IH Cons.prems m by simp
    ultimately show ?thesis using False p Cons.prems(3)
      by (simp add: deref_def array_at_update)
  qed
qed

lemma step_heap_not_eligible: "\<not> eligible t \<Longrightarrow> tasksByTrade_step_heap st t = st"
  by (simp add: tasksByTrade_step_heap_def)

lemma step_heap_sim:
  assumes "fresh_refs h0 m h"
  shows "fresh_refs h0 (fst (tasksByTrade_step_heap (m, h) t)) (snd (tasksByTrade_step_heap (m, h) t))
     \<and> deref (snd (tasksByTrade_step_heap (m, h) t)) (fst (tasksByTrade_step_heap (m, h) t))
       = tasksByTrade_step (deref h m) t"
proof (cases "eligible t")
  case False
  then show ?thesis using assms by (simp add: step_heap_not_eligible step_not_eligible)
next
  case True
  then obtain k where k: "trade_id t = Some k" using eligible_trade by blast
  from assms have inv: "take (length h0) h = h0" "length h0 \<le> length h" "distinct (map snd m)"
    "\<forall>r \<in> set (map snd m). length h0 \<le> r \<and> r < length h"
    by (simp_all add: fresh_refs_def)
  show ?thesis
  proof (cases "map_of m k")
    case None
    let ?m1 = "m @ [(k, length h)]"
    let ?h1 = "h @ [[]]"
    let ?h2 = "?h1[length h := [t]]"
    have st: "tasksByTrade_step_heap (m, h) t = (?m1, ?h2)"
      using True k None
      by (simp add: tasksByTrade_step_heap_def new_array_def update_absent array_push_def
          array_at_def Let_def map_add_def)
    have old: "\<forall>r \<in> set (map snd m). r < length h" using inv(4) by simp
    have "length h \<notin> set (map snd m)" using old by auto
    then have fresh: "fresh_refs h0 ?m1 ?h2"
      using inv by (auto simp: fresh_refs_def less_Suc_eq)
    have "deref ?h2 ?m1 = deref h m @ [(k, [t])]"
    proof -
      have "deref ?h2 m = deref h m"
        using old by (induction m) (auto simp: deref_def array_at_def nth_append)
      then show ?thesis by (simp add: deref_def array_at_def)
    qed
    moreover have "tasksByTrade_step (deref h m) t = deref h m @ [(k, [t])]"
      using True k None
      by (simp add: tasksByTrade_step_def map_of_deref update_absent update_appended
          Let_def map_add_def)
    ultimately show ?thesis using st fresh by simp
  next
    case (Some r)
    have r: "length h0 \<le> r" "r < length h"
      using inv(4) Some by (metis map_of_SomeD image_eqI snd_conv set_map)+
    let ?h2 = "h[r := array_at h r @ [t]]"
    have st: "tasksByTrade_step_heap (m, h) t = (m, ?h2)"
      using True k Some by (simp add: tasksByTrade_step_heap_def array_push_def)
    have fresh: "fresh_refs h0 m ?h2"
      using inv r by (simp add: fresh_refs_def)
    have "deref ?h2 m = AList.update k (array_at h r @ [t]) (deref h m)"
      using deref_update[OF inv(3) Some r(2)] .
    moreover have "tasksByTrade_step (deref h m) t
        = AList.update k (array_at h r @ [t]) (deref h m)"
      using True k Some by (simp add: tasksByTrade_step_def map_of_deref)
    ultimately show ?thesis using st fresh by simp
  qed
qed

lemma fold_heap_sim:
  assumes "fresh_refs h0 m h"
  shows "fresh_refs h0 (fst (foldl tasksByTrade_step_heap (m, h) ts))
            (snd (foldl tasksByTrade_step_heap (m, h) ts))
     \<and> deref (snd (foldl tasksByTrade_step_heap (m, h) ts))
             (fst (foldl tasksByTrade_step_heap (m, h) ts))
       = foldl tasksByTrade_step (deref h m) ts"
  using assms
proof (induction ts arbitrary: m h)
  case Nil
  then show ?case by simp
next
  case (Cons t ts)
  obtain m1 h1 where st: "tasksByTrade_step_heap (m, h) t = (m1, h1)"
    by (cases "tasksByTrade_step_heap (m, h) t")
  from step_heap_sim[OF Cons.prems, of t] st
  have 1: "fresh_refs h0 m1 h1" and 2: "deref h1 m1 = tasksByTrade_step (deref h m) t" by simp_all
  from Cons.IH[OF 1] show ?case using st 2 by simp
qed

lemma array_at_take:
  assumes "take (length h) h' = h" "r < length h"
  shows "array_at h' r = array_at h r"
proof -
  have "length (take (length h) h') = length h" using assms(1) by simp
  then have len: "length h \<le> length h'" by simp
  have "h' ! r = take (length h) h' ! r" using assms(2) by simp
  then show ?thesis using assms len by (simp add: array_at_def)
qed

lemma detectTradeOverlaps_heap_sim:
  "fst (detectTradeOverlaps_heap r h) = detectTradeOverlaps (array_at h r)
   \<and> take (length h) (snd (detectTradeOverlaps_heap r h)) = h"
proof -
  let ?st = "foldl tasksByTrade_step_heap ([], h) (array_at h r)"
  have "fresh_refs h [] h" by (simp add: fresh_refs_def)
  from fold_heap_sim[OF this, of "array_at h r"]
  have fr: "fresh_refs h (fst ?st) (snd ?st)"
    and d: "deref (snd ?st) (fst ?st) = tasksByTrade (array_at h r)"
    by (simp_all add: tasksByTrade_def deref_def)
  have keys: "map fst (fst ?st) = map fst (tasksByTrade (array_at h r))"
    using d deref_keys[of "snd ?st" "fst ?st"] by simp
  have "fst (detectTradeOverlaps_heap r h) = detectTradeOverlaps (array_at h r)"
    by (simp add: detectTradeOverlaps_heap_def detectTradeOverlaps_def Let_def d keys)
  moreover have "take (length h) (snd (detectTradeOverlaps_heap r h)) = h"
    using fr by (simp add: detectTradeOverlaps_heap_def Let_def fresh_refs_def)
  ultimately show ?thesis by simp
qed

lemma detectMissingDependencies_heap_eq:
  "detectMissingDependencies_heap r h
     = (detectMissingDependencies (array_at h r), h @ [sortedTasks (array_at h r)])"
  by (simp add: detectMissingDependencies_heap_def detectMissingDependencies_def new_array_def
      array_sort_at_def sortedTasks_def array_at_def Let_def)

text \<open>
  Claim C10. Called with the reference of an array of the heap, each of the three
  detectors leaves that array as it was: the same tasks in the same order (and a task, a
  value, has the fields it had). Indeed every array that existed before the call is
  unchanged: the overlap detector pushes only onto arrays it allocates, the missing
  dependency inferrer sorts the copy it allocates at the next free reference, and the
  conflict detector writes nothing. The findings are those of the detectors above on the
  content of the input array.
\<close>

theorem detectors_leave_input_unchanged:
  assumes "tasksRef < length h"
  shows "array_at (snd (detectTradeOverlaps_heap tasksRef h)) tasksRef = array_at h tasksRef
       \<and> array_at (snd (detectMissingDependencies_heap tasksRef h)) tasksRef = array_at h tasksRef
       \<and> array_at (snd (detectScheduleConflicts_heap tasksRef taskMap h)) tasksRef
           = array_at h tasksRef
       \<and> take (length h) (snd (detectTradeOverlaps_heap tasksRef h)) = h
       \<and> take (length h) (snd (detectMissingDependencies_heap tasksRef h)) = h
       \<and> snd (detectScheduleConflicts_heap tasksRef taskMap h) = h
       \<and> array_at (snd (detectMissingDependencies_heap tasksRef h)) (length h)
           = sortedTasks (array_at h tasksRef)
       \<and> fst (detectTradeOverlaps_heap tasksRef h) = detectTradeOverlaps (array_at h tasksRef)
       \<and> fst (detectMissingDependencies_heap tasksRef h)
           = detectMissingDependencies (array_at h tasksRef)
       \<and> fst (detectScheduleConflicts_heap tasksRef taskMap h)
           = detectScheduleConflicts (array_at h tasksRef) taskMap"
proof -
  note o = detectTradeOverlaps_heap_sim[of tasksRef h]
  have o1: "array_at (snd (detectTradeOverlaps_heap tasksRef h)) tasksRef = array_at h tasksRef"
    using array_at_take[OF _ assms] o by blast
  have m2: "take (length h) (snd (detectMissingDependencies_heap tasksRef h)) = h"
    by (simp add: detectMissingDependencies_heap_eq)
  have m1: "array_at (snd (detectMissingDependencies_heap tasksRef h)) tasksRef
      = array_at h tasksRef"
    using array_at_take[OF m2 assms] .
  have m3: "array_at (snd (detectMissingDependencies_heap tasksRef h)) (length h)
           = sortedTasks (array_at h tasksRef)"
    by (simp add: detectMissingDependencies_heap_eq array_at_def)
  have m4: "fst (detectMissingDependencies_heap tasksRef h)
           = detectMissingDependencies (array_at h tasksRef)"
    by (simp add: detectMissingDependencies_heap_eq)
  have c: "snd (detectScheduleConflicts_heap tasksRef taskMap h) = h"
    "fst (detectScheduleConflicts_heap tasksRef taskMap h)
           = detectScheduleConflicts (array_at h tasksRef) taskMap"
    by (simp_all add: detectScheduleConflicts_heap_def)
  show ?thesis using o o1 m1 m2 m3 m4 c by simp
qed

theorem detectors_leave_input_unchanged_witness:
  "array_at (snd (detectMissingDependencies_heap 0
       [[example_task 2 (Some 2) (Some (jan 10)) (Some (jan 12)) [],
         example_task 1 (Some 1) (Some (jan 1)) (Some (jan 8)) []]])) 0
     = [example_task 2 (Some 2) (Some (jan 10)) (Some (jan 12)) [],
        example_task 1 (Some 1) (Some (jan 1)) (Some (jan 8)) []]
   \<and> array_at (snd (detectMissingDependencies_heap 0
       [[example_task 2 (Some 2) (Some (jan 10)) (Some (jan 12)) [],
         example_task 1 (Some 1) (Some (jan 1)) (Some (jan 8)) []]])) 1
     = [example_task 1 (Some 1) (Some (jan 1)) (Some (jan 8)) [],
        example_task 2 (Some 2) (Some (jan 10)) (Some (jan 12)) []]
   \<and> array_at (snd (detectTradeOverlaps_heap 0
       [[example_task 2 (Some 2) (Some (jan 10)) (Some (jan 12)) [],
         example_task 1 (Some 1) (Some (jan 1)) (Some (jan 8)) []]])) 0
     = [example_task 2 (Some 2) (Some (jan 10)) (Some (jan 12)) [],
        example_task 1 (Some 1) (Some (jan 1)) (Some (jan 8)) []]"
proof -
  let ?b = "example_task 2 (Some 2) (Some (jan 10)) (Some (jan 12)) []"
  let ?a = "example_task 1 (Some 1) (Some (jan 1)) (Some (jan 8)) []"
  have r: "(0::nat) < length [[?b, ?a]]" by simp
  have at: "array_at [[?b, ?a]] 0 = [?b, ?a]" by (simp add: array_at_def)
  have srt: "sortedTasks [?b, ?a] = [?a, ?b]"
    by (simp add: sortedTasks_def array_sort_def compareTasks_def truthy_object_def new_Date_def
      example_task_def jan_def msPerDay_def)
  from detectors_leave_input_unchanged[OF r] show ?thesis
    unfolding at srt by simp
qed

end
